theory Spec2Isabelle
  imports Complex_Main "HOL-Library.Log_Nat" "HOL-Library.Sublist"
begin

section \<open>JavaScript numbers: IEEE 754 binary64\<close>

text \<open>
  Every value of the source is a JavaScript \<^verbatim>\<open>number\<close>: a binary64 float. A number is
  not-a-number, an infinity with its sign, or a finite value given by its sign bit and its
  magnitude (so that \<open>-0\<close> is \<open>Fin True 0\<close>). The sign bit is \<open>True\<close> for a negative number.
\<close>

datatype number = NaN | Inf bool | Fin bool real

definition pow2 :: "int \<Rightarrow> real" where
  "pow2 e = (if 0 \<le> e then 2 ^ nat e else 1 / 2 ^ nat (- e))"

text \<open>\<open>ilog2 q\<close> is the binary exponent of \<open>q > 0\<close>: \<open>2 ^ ilog2 q \<le> q < 2 ^ (ilog2 q + 1)\<close>.\<close>

definition ilog2 :: "real \<Rightarrow> int" where
  "ilog2 q = (if 1 \<le> q then bitlen \<lfloor>q\<rfloor> - 1
              else if q * 2 ^ nat (bitlen \<lfloor>1 / q\<rfloor> - 1) = 1 then 1 - bitlen \<lfloor>1 / q\<rfloor>
              else - bitlen \<lfloor>1 / q\<rfloor>)"

text \<open>Rounding to the nearest integer, ties to the even one.\<close>

definition rhe :: "real \<Rightarrow> int" where
  "rhe x = (if x - of_int \<lfloor>x\<rfloor> < 1 / 2 then \<lfloor>x\<rfloor>
            else if 1 / 2 < x - of_int \<lfloor>x\<rfloor> then \<lfloor>x\<rfloor> + 1
            else if even \<lfloor>x\<rfloor> then \<lfloor>x\<rfloor> else \<lfloor>x\<rfloor> + 1)"

text \<open>
  The exponent of the last place of the binary64 numbers around \<open>q\<close>: 53 significant bits,
  and never below the subnormal spacing \<open>2 ^ -1074\<close>.
\<close>

definition ulp_exp :: "real \<Rightarrow> int" where
  "ulp_exp q = max (ilog2 q - 52) (- 1074)"

definition round_mag :: "real \<Rightarrow> real" where
  "round_mag q = of_int (rhe (q / pow2 (ulp_exp q))) * pow2 (ulp_exp q)"

text \<open>
  \<open>fl s q\<close> is the binary64 number nearest to the exact magnitude \<open>q \<ge> 0\<close> with sign \<open>s\<close>
  (round to nearest, ties to even): what every arithmetic operation of JavaScript returns
  for an exact result \<open>q\<close>. A magnitude that rounds to \<open>2 ^ 1024\<close> overflows to infinity.
\<close>

definition fl :: "bool \<Rightarrow> real \<Rightarrow> number" where
  "fl s q = (if q = 0 then Fin s 0
             else if 2 ^ 1024 \<le> round_mag q then Inf s else Fin s (round_mag q))"

definition val :: "bool \<Rightarrow> real \<Rightarrow> real" where
  "val s m = (if s then - m else m)"

definition num :: "real \<Rightarrow> number" where
  "num x = Fin (x < 0) \<bar>x\<bar>"

fun num_neg :: "number \<Rightarrow> number" where
  "num_neg NaN = NaN"
| "num_neg (Inf s) = Inf (\<not> s)"
| "num_neg (Fin s m) = Fin (\<not> s) m"

fun num_abs :: "number \<Rightarrow> number" where
  "num_abs NaN = NaN"
| "num_abs (Inf s) = Inf False"
| "num_abs (Fin s m) = Fin False m"

fun num_add :: "number \<Rightarrow> number \<Rightarrow> number" where
  "num_add NaN y = NaN"
| "num_add x NaN = NaN"
| "num_add (Inf s) (Inf t) = (if s = t then Inf s else NaN)"
| "num_add (Inf s) (Fin t n) = Inf s"
| "num_add (Fin s m) (Inf t) = Inf t"
| "num_add (Fin s m) (Fin t n) =
     (if val s m + val t n = 0 then Fin (s \<and> t) 0
      else fl (val s m + val t n < 0) \<bar>val s m + val t n\<bar>)"

definition num_sub :: "number \<Rightarrow> number \<Rightarrow> number" where
  "num_sub x y = num_add x (num_neg y)"

fun num_mul :: "number \<Rightarrow> number \<Rightarrow> number" where
  "num_mul NaN y = NaN"
| "num_mul x NaN = NaN"
| "num_mul (Inf s) (Inf t) = Inf (s \<noteq> t)"
| "num_mul (Inf s) (Fin t n) = (if n = 0 then NaN else Inf (s \<noteq> t))"
| "num_mul (Fin s m) (Inf t) = (if m = 0 then NaN else Inf (s \<noteq> t))"
| "num_mul (Fin s m) (Fin t n) = fl (s \<noteq> t) (m * n)"

fun num_div :: "number \<Rightarrow> number \<Rightarrow> number" where
  "num_div NaN y = NaN"
| "num_div x NaN = NaN"
| "num_div (Inf s) (Inf t) = NaN"
| "num_div (Inf s) (Fin t n) = Inf (s \<noteq> t)"
| "num_div (Fin s m) (Inf t) = Fin (s \<noteq> t) 0"
| "num_div (Fin s m) (Fin t n) =
     (if n = 0 then (if m = 0 then NaN else Inf (s \<noteq> t)) else fl (s \<noteq> t) (m / n))"

text \<open>The remainder \<^verbatim>\<open>%\<close> truncates the quotient and keeps the dividend's sign; it is exact.\<close>

fun num_rem :: "number \<Rightarrow> number \<Rightarrow> number" where
  "num_rem NaN y = NaN"
| "num_rem x NaN = NaN"
| "num_rem (Inf s) y = NaN"
| "num_rem (Fin s m) (Inf t) = Fin s m"
| "num_rem (Fin s m) (Fin t n) =
     (if n = 0 then NaN else Fin s (m - n * of_int \<lfloor>m / n\<rfloor>))"

fun num_lt :: "number \<Rightarrow> number \<Rightarrow> bool" where
  "num_lt NaN y = False"
| "num_lt x NaN = False"
| "num_lt (Inf s) (Inf t) = (s \<and> \<not> t)"
| "num_lt (Inf s) (Fin t n) = s"
| "num_lt (Fin s m) (Inf t) = (\<not> t)"
| "num_lt (Fin s m) (Fin t n) = (val s m < val t n)"

fun num_le :: "number \<Rightarrow> number \<Rightarrow> bool" where
  "num_le NaN y = False"
| "num_le x NaN = False"
| "num_le (Inf s) (Inf t) = (s \<or> \<not> t)"
| "num_le (Inf s) (Fin t n) = s"
| "num_le (Fin s m) (Inf t) = (\<not> t)"
| "num_le (Fin s m) (Fin t n) = (val s m \<le> val t n)"

definition num_gt :: "number \<Rightarrow> number \<Rightarrow> bool" where
  "num_gt x y = num_lt y x"

text \<open>Strict equality \<^verbatim>\<open>===\<close> of two numbers: \<open>NaN\<close> equals nothing, \<open>+0\<close> equals \<open>-0\<close>.\<close>

fun num_eq :: "number \<Rightarrow> number \<Rightarrow> bool" where
  "num_eq (Inf s) (Inf t) = (s = t)"
| "num_eq (Fin s m) (Fin t n) = (val s m = val t n)"
| "num_eq x y = False"

fun isFinite :: "number \<Rightarrow> bool" where
  "isFinite (Fin s m) = True"
| "isFinite x = False"

fun isNaN :: "number \<Rightarrow> bool" where
  "isNaN NaN = True"
| "isNaN x = False"

fun isInteger :: "number \<Rightarrow> bool" where
  "isInteger (Fin s m) = (of_int \<lfloor>m\<rfloor> = m)"
| "isInteger x = False"

text \<open>\<^verbatim>\<open>Math.floor\<close>: exact, and \<open>floor(-0) = -0\<close>.\<close>

fun Math_floor :: "number \<Rightarrow> number" where
  "Math_floor NaN = NaN"
| "Math_floor (Inf s) = Inf s"
| "Math_floor (Fin s m) =
     (if \<lfloor>val s m\<rfloor> = 0 then Fin s 0 else Fin (\<lfloor>val s m\<rfloor> < 0) \<bar>of_int \<lfloor>val s m\<rfloor>\<bar>)"

section \<open>factorial\<close>

text \<open>
  \<^verbatim>\<open>for (let i = 2; i <= n; i++) result *= i;\<close> The loop counter is a number too, so the
  loop is not structurally bounded: not returning is the value \<open>None\<close>.
\<close>

partial_function (option) factorial_loop :: "number \<Rightarrow> number \<Rightarrow> number \<Rightarrow> number option" where
  "factorial_loop n i result =
     (if num_le i n then factorial_loop n (num_add i (num 1)) (num_mul result i)
      else Some result)"

definition factorial :: "number \<Rightarrow> number option" where
  "factorial n =
     (if num_lt n (num 0) then Some NaN
      else if num_eq n (num 0) \<or> num_eq n (num 1) then Some (num 1)
      else factorial_loop n (num 2) (num 1))"

section \<open>Numbers and strings\<close>

text \<open>
  Strings are UTF-8 byte sequences; every character the source's patterns name outside
  ASCII is written as its byte sequence.
\<close>

definition is_digit :: "char \<Rightarrow> bool" where
  "is_digit c = (c \<in> set ''0123456789'')"

definition is_letter :: "char \<Rightarrow> bool" where
  "is_letter c = (c \<in> set ''abcdefghijklmnopqrstuvwxyzABCDEFGHIJKLMNOPQRSTUVWXYZ'')"

definition digit_char :: "nat \<Rightarrow> char" where
  "digit_char d = ''0123456789'' ! d"

text \<open>The value of a digit: its position among the ten digits.\<close>

definition digit_val :: "char \<Rightarrow> nat" where
  "digit_val c = length (takeWhile (\<lambda>d. d \<noteq> c) ''0123456789'')"

text \<open>The decimal digits of a natural number, the last digit produced first.\<close>

fun show_digits :: "nat \<Rightarrow> string \<Rightarrow> string" where
  "show_digits n acc =
     (if n < 10 then digit_char n # acc else show_digits (n div 10) (digit_char (n mod 10) # acc))"

declare show_digits.simps [simp del]

definition show_nat :: "nat \<Rightarrow> string" where
  "show_nat n = show_digits n []"

text \<open>The value of a string of decimal digits, read from the left.\<close>

fun digits_value :: "nat \<Rightarrow> string \<Rightarrow> nat" where
  "digits_value acc [] = acc"
| "digits_value acc (c # cs) = digits_value (10 * acc + digit_val c) cs"

definition pow10 :: "int \<Rightarrow> real" where
  "pow10 e = (if 0 \<le> e then 10 ^ nat e else 1 / 10 ^ nat (- e))"

text \<open>
  \<open>dec_exp x\<close> for \<open>x > 0\<close> is the \<open>n\<close> with \<open>10 ^ (n - 1) \<le> x < 10 ^ n\<close>: the position of the
  decimal point after the first significant digit of \<open>x\<close>. Below one, the leading zeros are
  counted by scaling; no positive binary64 number needs more than 324 steps.
\<close>

function scale_up :: "nat \<Rightarrow> real \<Rightarrow> nat" where
  "scale_up j x = (if 400 \<le> j \<or> 1 \<le> x then j else scale_up (j + 1) (x * 10))"
  by pat_completeness auto
termination
  by (relation "measure (\<lambda>(j, x). 400 - j)") auto

declare scale_up.simps [simp del]

definition dec_exp :: "real \<Rightarrow> int" where
  "dec_exp x = (if 1 \<le> x then int (length (show_nat (nat \<lfloor>x\<rfloor>))) else 1 - int (scale_up 0 x))"

text \<open>
  \<^verbatim>\<open>Number::toString\<close> (ECMA-262): the digits \<open>s\<close> of the shortest decimal \<open>s * 10 ^ (n - k)\<close>
  with \<open>k\<close> digits that rounds to \<open>x\<close>; of two with the same \<open>k\<close>, the one nearer to \<open>x\<close>.
  \<open>digits_at x k\<close> tries the two \<open>k\<close>-digit decimals around \<open>x\<close>.
\<close>

definition rounds_to :: "real \<Rightarrow> int \<Rightarrow> int \<Rightarrow> bool" where
  "rounds_to x s e = (fl False (of_int s * pow10 e) = Fin False x)"

definition digits_at :: "real \<Rightarrow> nat \<Rightarrow> int option" where
  "digits_at x k =
     (let e = dec_exp x - int k; lo = \<lfloor>x / pow10 e\<rfloor>; hi = lo + 1 in
      if rounds_to x lo e \<and> rounds_to x hi e then
        (if x - of_int lo * pow10 e < of_int hi * pow10 e - x then Some lo
         else if of_int hi * pow10 e - x < x - of_int lo * pow10 e then Some hi
         else if even lo then Some lo else Some hi)
      else if rounds_to x lo e then Some lo
      else if rounds_to x hi e then Some hi
      else None)"

function shortest_digits :: "real \<Rightarrow> nat \<Rightarrow> int \<times> nat" where
  "shortest_digits x k =
     (if 17 < k then (\<lfloor>x / pow10 (dec_exp x - int k)\<rfloor>, k)
      else case digits_at x k of Some s \<Rightarrow> (s, k) | None \<Rightarrow> shortest_digits x (k + 1))"
  by pat_completeness auto
termination
  by (relation "measure (\<lambda>(x, k). 18 - k)") auto

declare shortest_digits.simps [simp del]

text \<open>The layouts of \<^verbatim>\<open>Number::toString\<close> for \<open>k\<close> digits \<open>ds\<close> and decimal exponent \<open>n\<close>.\<close>

definition layout :: "string \<Rightarrow> int \<Rightarrow> string" where
  "layout ds n =
     (let k = int (length ds) in
      if k \<le> n \<and> n \<le> 21 then ds @ replicate (nat (n - k)) CHR ''0''
      else if 0 < n \<and> n \<le> 21 then take (nat n) ds @ ''.'' @ drop (nat n) ds
      else if - 6 < n \<and> n \<le> 0 then ''0.'' @ replicate (nat (- n)) CHR ''0'' @ ds
      else (if k = 1 then ds else take 1 ds @ ''.'' @ drop 1 ds) @ ''e'' @
           (if 0 \<le> n - 1 then ''+'' else ''-'') @ show_nat (nat \<bar>n - 1\<bar>))"

definition show_positive :: "real \<Rightarrow> string" where
  "show_positive x =
     (case shortest_digits x 1 of (s, k) \<Rightarrow>
        if s = 10 ^ k then layout (show_nat (10 ^ (k - 1))) (dec_exp x + 1)
        else layout (show_nat (nat s)) (dec_exp x))"

fun number_to_string :: "number \<Rightarrow> string" where
  "number_to_string NaN = ''NaN''"
| "number_to_string (Inf s) = (if s then ''-Infinity'' else ''Infinity'')"
| "number_to_string (Fin s m) =
     (if m = 0 then ''0'' else if s then ''-'' @ show_positive m else show_positive m)"

text \<open>
  \<^verbatim>\<open>Number(text)\<close> of an unsigned decimal literal: the digits before the point, the digits
  after it, and a decimal exponent; the exact value is rounded once.
\<close>

definition decimal_number :: "string \<Rightarrow> string \<Rightarrow> int \<Rightarrow> number" where
  "decimal_number ip fp ex =
     fl False (real (digits_value 0 (ip @ fp)) * pow10 (ex - int (length fp)))"

section \<open>decimalToFraction\<close>

datatype text_or_number = Number number | Text string

record cf_state =
  h1 :: number
  h2 :: number
  k1 :: number
  k2 :: number
  b :: number

text \<open>The body of the \<^verbatim>\<open>do ... while\<close> loop: one step of the continued-fraction expansion.\<close>

definition cf_body :: "cf_state \<Rightarrow> cf_state" where
  "cf_body st =
     (let a = Math_floor (b st) in
      \<lparr>h1 = num_add (num_mul a (h1 st)) (h2 st),
       h2 = h1 st,
       k1 = num_add (num_mul a (k1 st)) (k2 st),
       k2 = k1 st,
       b = num_div (num 1) (num_sub (b st) a)\<rparr>)"

text \<open>\<^verbatim>\<open>Math.abs(value - sign * h1 / k1)\<close>\<close>

definition cf_error :: "number \<Rightarrow> number \<Rightarrow> cf_state \<Rightarrow> number" where
  "cf_error value sign st = num_abs (num_sub value (num_div (num_mul sign (h1 st)) (k1 st)))"

definition cf_continue :: "number \<Rightarrow> number \<Rightarrow> number \<Rightarrow> number \<Rightarrow> cf_state \<Rightarrow> bool" where
  "cf_continue value sign tolerance maxDenominator st =
     (num_gt (cf_error value sign st) (num_mul value tolerance) \<and> num_le (k1 st) maxDenominator)"

partial_function (option) cf_loop ::
  "number \<Rightarrow> number \<Rightarrow> number \<Rightarrow> number \<Rightarrow> cf_state \<Rightarrow> cf_state option" where
  "cf_loop value sign tolerance maxDenominator st =
     (if cf_continue value sign tolerance maxDenominator (cf_body st)
      then cf_loop value sign tolerance maxDenominator (cf_body st)
      else Some (cf_body st))"

text \<open>
  The same loop with a bound on the number of times its body runs: \<open>None\<close> when the bound
  is used up before the loop condition fails.
\<close>

fun cf_run ::
  "nat \<Rightarrow> number \<Rightarrow> number \<Rightarrow> number \<Rightarrow> number \<Rightarrow> cf_state \<Rightarrow> cf_state option" where
  "cf_run 0 value sign tolerance maxDenominator st = None"
| "cf_run (Suc f) value sign tolerance maxDenominator st =
     (if cf_continue value sign tolerance maxDenominator (cf_body st)
      then cf_run f value sign tolerance maxDenominator (cf_body st)
      else Some (cf_body st))"

definition cf_init :: "number \<Rightarrow> cf_state" where
  "cf_init absValue = \<lparr>h1 = num 1, h2 = num 0, k1 = num 0, k2 = num 1, b = absValue\<rparr>"

definition decimalToFraction :: "number \<Rightarrow> number \<Rightarrow> number \<Rightarrow> text_or_number option" where
  "decimalToFraction value tolerance maxDenominator =
     (if \<not> isFinite value then Some (Number value)
      else if isInteger value then Some (Number value)
      else
        (let sign = (if num_lt value (num 0) then num (- 1) else num 1);
             absValue = num_abs value in
         case cf_loop value sign tolerance maxDenominator (cf_init absValue) of
           None \<Rightarrow> None
         | Some st \<Rightarrow>
             if num_gt (k1 st) maxDenominator \<or> num_gt (cf_error value sign st) tolerance
             then Some (Number value)
             else Some (Text (number_to_string (num_mul sign (h1 st)) @ ''/'' @
                              number_to_string (k1 st)))))"

text \<open>The default arguments \<^verbatim>\<open>tolerance = 1.0E-9\<close> and \<^verbatim>\<open>maxDenominator = 1000000\<close>.\<close>

definition default_tolerance :: number where
  "default_tolerance = decimal_number ''1'' ''0'' (- 9)"

definition default_maxDenominator :: number where
  "default_maxDenominator = num 1000000"

section \<open>formatResult\<close>

text \<open>\<^verbatim>\<open>Math.round\<close>: the nearest integer, a tie towards \<open>+\<infinity>\<close>; exact.\<close>

fun Math_round :: "number \<Rightarrow> number" where
  "Math_round NaN = NaN"
| "Math_round (Inf s) = Inf s"
| "Math_round (Fin s m) =
     (if \<lfloor>val s m + 1 / 2\<rfloor> = 0 then Fin s 0
      else Fin (\<lfloor>val s m + 1 / 2\<rfloor> < 0) \<bar>of_int \<lfloor>val s m + 1 / 2\<rfloor>\<bar>)"

text \<open>\<^verbatim>\<open>Number.EPSILON\<close>\<close>

definition EPSILON :: number where
  "EPSILON = Fin False (1 / 2 ^ 52)"

text \<open>
  \<^verbatim>\<open>parseFloat(result.toPrecision(15))\<close>: the decimal with 15 significant digits nearest to
  the number (a tie to the larger one), read back as a number. The text between the two
  calls is that decimal in fixed or exponential notation, which \<^verbatim>\<open>parseFloat\<close> reads whole.
\<close>

fun parseFloat_toPrecision15 :: "number \<Rightarrow> number" where
  "parseFloat_toPrecision15 NaN = NaN"
| "parseFloat_toPrecision15 (Inf s) = Inf s"
| "parseFloat_toPrecision15 (Fin s m) =
     (if m = 0 then Fin False 0
      else fl s (of_int \<lfloor>m / pow10 (dec_exp m - 15) + 1 / 2\<rfloor> * pow10 (dec_exp m - 15)))"

fun formatResult :: "text_or_number \<Rightarrow> string option" where
  "formatResult (Text t) = Some t"
| "formatResult (Number result) =
     (if \<not> isFinite result then Some ''Can't divide by 0''
      else if isNaN result then Some ''Invalid Input''
      else if num_lt (num_abs (num_sub result (Math_round result))) (num_mul EPSILON (num 1000))
      then Some (number_to_string (Math_round result))
      else
        (case decimalToFraction (parseFloat_toPrecision15 result)
                default_tolerance default_maxDenominator of
           None \<Rightarrow> None
         | Some (Text fraction) \<Rightarrow> Some fraction
         | Some (Number fraction) \<Rightarrow> Some (number_to_string fraction)))"

section \<open>The expression normaliser of evaluateExpression\<close>

text \<open>
  The characters that \<^verbatim>\<open>\s\<close> matches: the ASCII white space and line ends, and
  U+00A0, U+1680, U+2000 to U+200A, U+2028, U+2029, U+202F, U+205F, U+3000 and U+FEFF.
\<close>

definition white_space :: "string list" where
  "white_space =
     [[CHR 0x09], [CHR 0x0A], [CHR 0x0B], [CHR 0x0C], [CHR 0x0D], [CHR 0x20],
      [CHR 0xC2, CHR 0xA0], [CHR 0xE1, CHR 0x9A, CHR 0x80],
      [CHR 0xE2, CHR 0x80, CHR 0x80], [CHR 0xE2, CHR 0x80, CHR 0x81],
      [CHR 0xE2, CHR 0x80, CHR 0x82], [CHR 0xE2, CHR 0x80, CHR 0x83],
      [CHR 0xE2, CHR 0x80, CHR 0x84], [CHR 0xE2, CHR 0x80, CHR 0x85],
      [CHR 0xE2, CHR 0x80, CHR 0x86], [CHR 0xE2, CHR 0x80, CHR 0x87],
      [CHR 0xE2, CHR 0x80, CHR 0x88], [CHR 0xE2, CHR 0x80, CHR 0x89],
      [CHR 0xE2, CHR 0x80, CHR 0x8A], [CHR 0xE2, CHR 0x80, CHR 0xA8],
      [CHR 0xE2, CHR 0x80, CHR 0xA9], [CHR 0xE2, CHR 0x80, CHR 0xAF],
      [CHR 0xE2, CHR 0x81, CHR 0x9F], [CHR 0xE3, CHR 0x80, CHR 0x80],
      [CHR 0xEF, CHR 0xBB, CHR 0xBF]]"

text \<open>The length of the white-space character a string starts with, or 0.\<close>

definition space_length :: "string \<Rightarrow> nat" where
  "space_length s = (case find (\<lambda>w. prefix w s) white_space of Some w \<Rightarrow> length w | None \<Rightarrow> 0)"

text \<open>\<^verbatim>\<open>expression.replace(/\s/g, '')\<close>\<close>

function strip_whitespace :: "string \<Rightarrow> string" where
  "strip_whitespace s =
     (if s = [] then []
      else if 0 < space_length s then strip_whitespace (drop (space_length s) s)
      else hd s # strip_whitespace (tl s))"
  by pat_completeness auto
termination
  by (relation "measure length") auto

declare strip_whitespace.simps [simp del]

text \<open>
  \<^verbatim>\<open>text.replace(/pattern/g, replacement)\<close> for a pattern that is a literal text: every
  match from left to right, the search going on after each match.
\<close>

function replace_all :: "string \<Rightarrow> string \<Rightarrow> string \<Rightarrow> string" where
  "replace_all pat rep s =
     (if s = [] \<or> pat = [] then s
      else if prefix pat s then rep @ replace_all pat rep (drop (length pat) s)
      else hd s # replace_all pat rep (tl s))"
  by pat_completeness auto
termination
  by (relation "measure (\<lambda>(pat, rep, s). length s)") auto

declare replace_all.simps [simp del]

text \<open>The calculator's glyphs: the multiplication and division signs, pi, phi and the root sign.\<close>

definition glyph_times :: string where
  "glyph_times = [CHR 0xC3, CHR 0x97]"

definition glyph_divide :: string where
  "glyph_divide = [CHR 0xC3, CHR 0xB7]"

definition glyph_pi :: string where
  "glyph_pi = [CHR 0xCF, CHR 0x80]"

definition glyph_phi :: string where
  "glyph_phi = [CHR 0xCF, CHR 0x86]"

definition glyph_sqrt :: string where
  "glyph_sqrt = [CHR 0xE2, CHR 0x88, CHR 0x9A]"

text \<open>
  \<^verbatim>\<open>.replace(/(?<![0-9.])e(?![0-9+-])/g, 'E')\<close>: an \<open>e\<close> becomes \<open>E\<close> unless the character
  before it is a digit or a point, or the character after it is a digit or a sign. Both are
  characters of the text before the replacement; \<open>prev\<close> is the character before.
\<close>

fun replace_e :: "char option \<Rightarrow> string \<Rightarrow> string" where
  "replace_e prev [] = []"
| "replace_e prev (c # cs) =
     (if c = CHR ''e'' \<and>
         \<not> (case prev of Some p \<Rightarrow> p \<in> set ''0123456789.'' | None \<Rightarrow> False) \<and>
         \<not> (case cs of d # ds \<Rightarrow> d \<in> set ''0123456789+-'' | [] \<Rightarrow> False)
      then CHR ''E'' # replace_e (Some c) cs
      else c # replace_e (Some c) cs)"

text \<open>Step 2 of the source, the symbol replacements in their order.\<close>

definition symbol_replacement :: "string \<Rightarrow> string" where
  "symbol_replacement s =
     replace_all ''--'' ''+''
      (replace_all ''abs('' ''abs(''
        (replace_all glyph_sqrt ''sqrt''
          (replace_all ''^'' ''**''
            (replace_all glyph_phi ''PHI''
              (replace_e None
                (replace_all glyph_pi ''PI''
                  (replace_all glyph_divide ''/''
                    (replace_all glyph_times ''*'' s))))))))"

text \<open>
  Step 3, implicit multiplication. Each pattern matches two characters and the search
  goes on after the second.
  Case 1: \<^verbatim>\<open>.replace(/(\d)([a-zA-Z(])/g, '$1*$2')\<close>
\<close>

fun implicit_mul_case1 :: "string \<Rightarrow> string" where
  "implicit_mul_case1 (c # d # cs) =
     (if is_digit c \<and> (is_letter d \<or> d = CHR ''('')
      then c # CHR ''*'' # d # implicit_mul_case1 cs
      else c # implicit_mul_case1 (d # cs))"
| "implicit_mul_case1 cs = cs"

text \<open>Case 2: \<^verbatim>\<open>.replace(/(\))([a-zA-Z0-9(])/g, '$1*$2')\<close>\<close>

fun implicit_mul_case2 :: "string \<Rightarrow> string" where
  "implicit_mul_case2 (c # d # cs) =
     (if c = CHR '')'' \<and> (is_letter d \<or> is_digit d \<or> d = CHR ''('')
      then c # CHR ''*'' # d # implicit_mul_case2 cs
      else c # implicit_mul_case2 (d # cs))"
| "implicit_mul_case2 cs = cs"

text \<open>Case 3: \<^verbatim>\<open>.replace(/!([a-zA-Z0-9(])/g, '!*$1')\<close>\<close>

fun implicit_mul_case3 :: "string \<Rightarrow> string" where
  "implicit_mul_case3 (c # d # cs) =
     (if c = CHR ''!'' \<and> (is_letter d \<or> is_digit d \<or> d = CHR ''('')
      then c # CHR ''*'' # d # implicit_mul_case3 cs
      else c # implicit_mul_case3 (d # cs))"
| "implicit_mul_case3 cs = cs"

definition implicit_multiplication :: "string \<Rightarrow> string" where
  "implicit_multiplication s = implicit_mul_case3 (implicit_mul_case2 (implicit_mul_case1 s))"

text \<open>
  Step 4, \<^verbatim>\<open>.replace(/(\d+(?:\.\d+)?)!/g, (_, num) => String(factorial(Number(num))))\<close>.
  \<open>factorial_match s\<close> matches the pattern at the start of \<open>s\<close>: the digits before the
  point, the digits after it, and the text after the \<open>!\<close>. A shorter run of digits never
  matches where the longest does not, since a digit would follow it.
\<close>

definition factorial_match :: "string \<Rightarrow> (string \<times> string \<times> string) option" where
  "factorial_match s =
     (let ip = takeWhile is_digit s; r = dropWhile is_digit s in
      if ip = [] then None
      else case r of
        c # r' \<Rightarrow>
          if c = CHR ''!'' then Some (ip, [], r')
          else if c = CHR ''.'' then
            (let fp = takeWhile is_digit r' in
             case dropWhile is_digit r' of
               d # r'' \<Rightarrow> if fp \<noteq> [] \<and> d = CHR ''!'' then Some (ip, fp, r'') else None
             | [] \<Rightarrow> None)
          else None
      | [] \<Rightarrow> None)"

lemma factorial_match_shorter:
  "factorial_match s = Some (ip, fp, rest) \<Longrightarrow> length rest < length s"
proof -
  assume m: "factorial_match s = Some (ip, fp, rest)"
  have "length (takeWhile is_digit s @ dropWhile is_digit s) = length s" by simp
  then have l: "length s = length (takeWhile is_digit s) + length (dropWhile is_digit s)"
    by (simp only: length_append)
  show ?thesis
  proof (cases "dropWhile is_digit s")
    case Nil
    show ?thesis using m unfolding factorial_match_def Let_def Nil by (simp split: if_splits)
  next
    case (Cons c r')
    have r: "length (dropWhile is_digit r') \<le> length r'" by (rule length_dropWhile_le)
    from m have "length rest \<le> length r'"
      unfolding factorial_match_def Let_def Cons using r
      by (auto split: if_splits list.splits)
    then show ?thesis using l unfolding Cons by simp
  qed
qed

text \<open>
  The replacement itself. The callback runs \<open>factorial\<close> on each match from left to right;
  where one of these calls does not return, neither does the replacement.
  \<^verbatim>\<open>Number(num)\<close> is the number nearest to the decimal \<open>num\<close>.
\<close>

function replace_factorials :: "string \<Rightarrow> string option" where
  "replace_factorials s =
     (if s = [] then Some []
      else case factorial_match s of
        Some (ip, fp, rest) \<Rightarrow>
          (case factorial (decimal_number ip fp 0) of
             None \<Rightarrow> None
           | Some v \<Rightarrow> map_option (\<lambda>r. number_to_string v @ r) (replace_factorials rest))
      | None \<Rightarrow> map_option (\<lambda>r. hd s # r) (replace_factorials (tl s)))"
  by pat_completeness auto
termination
  by (relation "measure length") (auto simp: factorial_match_shorter)

declare replace_factorials.simps [simp del]

section \<open>The scope that evaluateExpression gives to the expression\<close>

text \<open>\<^verbatim>\<open>AngleMode\<close> is \<^verbatim>\<open>'deg'\<close> or \<^verbatim>\<open>'rad'\<close>.\<close>

datatype angle_mode = Deg | Rad

text \<open>
  The functions of \<^verbatim>\<open>Math\<close> that ECMA-262 leaves to the implementation (each returns "an
  implementation-approximated value"), and the exponentiation of two numbers, are taken
  from the host. So are the names that the host's global environment binds (\<^verbatim>\<open>Math\<close>,
  \<^verbatim>\<open>isFinite\<close>, \<^verbatim>\<open>Infinity\<close> and whatever else the host defines): \<open>global_name\<close> holds of them.
\<close>

record math_library =
  approx_sin :: "number \<Rightarrow> number"
  approx_cos :: "number \<Rightarrow> number"
  approx_tan :: "number \<Rightarrow> number"
  approx_log :: "number \<Rightarrow> number"
  approx_log10 :: "number \<Rightarrow> number"
  approx_sqrt :: "number \<Rightarrow> number"
  exponentiate :: "number \<Rightarrow> number \<Rightarrow> number"
  global_name :: "string \<Rightarrow> bool"

text \<open>The results that ECMA-262 prescribes for the functions of \<^verbatim>\<open>Math\<close>.\<close>

fun Math_sin :: "math_library \<Rightarrow> number \<Rightarrow> number" where
  "Math_sin M NaN = NaN"
| "Math_sin M (Inf s) = NaN"
| "Math_sin M (Fin s m) = (if m = 0 then Fin s m else approx_sin M (Fin s m))"

fun Math_cos :: "math_library \<Rightarrow> number \<Rightarrow> number" where
  "Math_cos M NaN = NaN"
| "Math_cos M (Inf s) = NaN"
| "Math_cos M (Fin s m) = (if m = 0 then Fin False 1 else approx_cos M (Fin s m))"

fun Math_tan :: "math_library \<Rightarrow> number \<Rightarrow> number" where
  "Math_tan M NaN = NaN"
| "Math_tan M (Inf s) = NaN"
| "Math_tan M (Fin s m) = (if m = 0 then Fin s m else approx_tan M (Fin s m))"

fun Math_log :: "math_library \<Rightarrow> number \<Rightarrow> number" where
  "Math_log M NaN = NaN"
| "Math_log M (Inf s) = (if s then NaN else Inf False)"
| "Math_log M (Fin s m) =
     (if m = 0 then Inf True else if s then NaN else if m = 1 then Fin False 0
      else approx_log M (Fin s m))"

fun Math_log10 :: "math_library \<Rightarrow> number \<Rightarrow> number" where
  "Math_log10 M NaN = NaN"
| "Math_log10 M (Inf s) = (if s then NaN else Inf False)"
| "Math_log10 M (Fin s m) =
     (if m = 0 then Inf True else if s then NaN else if m = 1 then Fin False 0
      else approx_log10 M (Fin s m))"

fun Math_sqrt :: "math_library \<Rightarrow> number \<Rightarrow> number" where
  "Math_sqrt M NaN = NaN"
| "Math_sqrt M (Inf s) = (if s then NaN else Inf False)"
| "Math_sqrt M (Fin s m) =
     (if m = 0 then Fin s m else if s then NaN else approx_sqrt M (Fin s m))"

text \<open>\<^verbatim>\<open>Math.PI\<close> and \<^verbatim>\<open>Math.E\<close>: the numbers 3.141592653589793 and 2.718281828459045.\<close>

definition Math_PI :: number where
  "Math_PI = Fin False (884279719003555 / 2 ^ 48)"

definition Math_E :: number where
  "Math_E = Fin False (6121026514868073 / 2 ^ 51)"

text \<open>
  \<^verbatim>\<open>const degToRad = Math.PI / 180\<close>. The function body is a template into which the
  number is written as text and from which the host reads it back; \<^verbatim>\<open>Number::toString\<close> is
  so defined that the same number is read back.
\<close>

definition degToRad :: number where
  "degToRad = num_div Math_PI (num 180)"

text \<open>\<^verbatim>\<open>${angleMode === 'deg'} ? x * ${degToRad} : x\<close>\<close>

definition angle :: "angle_mode \<Rightarrow> number \<Rightarrow> number" where
  "angle angleMode x = (if angleMode = Deg then num_mul x degToRad else x)"

text \<open>The ten functions that the function body defines, and what each returns.\<close>

datatype scope_function =
  Fn_sin | Fn_cos | Fn_tan | Fn_csc | Fn_sec | Fn_cot | Fn_log | Fn_ln | Fn_sqrt | Fn_abs

fun apply_function :: "math_library \<Rightarrow> angle_mode \<Rightarrow> scope_function \<Rightarrow> number \<Rightarrow> number" where
  "apply_function M angleMode Fn_sin x = Math_sin M (angle angleMode x)"
| "apply_function M angleMode Fn_cos x = Math_cos M (angle angleMode x)"
| "apply_function M angleMode Fn_tan x = Math_tan M (angle angleMode x)"
| "apply_function M angleMode Fn_csc x = num_div (num 1) (Math_sin M (angle angleMode x))"
| "apply_function M angleMode Fn_sec x = num_div (num 1) (Math_cos M (angle angleMode x))"
| "apply_function M angleMode Fn_cot x = num_div (num 1) (Math_tan M (angle angleMode x))"
| "apply_function M angleMode Fn_log x = Math_log10 M x"
| "apply_function M angleMode Fn_ln x = Math_log M x"
| "apply_function M angleMode Fn_sqrt x = Math_sqrt M x"
| "apply_function M angleMode Fn_abs x = num_abs x"

text \<open>
  The values an expression of the modelled part of JavaScript can have: a number, one of
  the ten functions, or \<^verbatim>\<open>undefined\<close>.
\<close>

datatype js_value = JNumber number | JFunction scope_function | JUndefined

text \<open>
  What running a piece of JavaScript comes to: it returns a value, it throws, or it lies
  outside the part of JavaScript that is modelled here and nothing is said about it.
\<close>

datatype 'a completion = Returns 'a | Throws | Unmodelled

text \<open>The names that the function body binds, with \<^verbatim>\<open>PHI = (1 + Math.sqrt(5)) / 2\<close>.\<close>

definition scope :: "math_library \<Rightarrow> (string \<times> js_value) list" where
  "scope M =
     [(''PI'', JNumber Math_PI),
      (''E'', JNumber Math_E),
      (''PHI'', JNumber (num_div (num_add (num 1) (Math_sqrt M (num 5))) (num 2))),
      (''sin'', JFunction Fn_sin), (''cos'', JFunction Fn_cos), (''tan'', JFunction Fn_tan),
      (''csc'', JFunction Fn_csc), (''sec'', JFunction Fn_sec), (''cot'', JFunction Fn_cot),
      (''log'', JFunction Fn_log), (''ln'', JFunction Fn_ln),
      (''sqrt'', JFunction Fn_sqrt), (''abs'', JFunction Fn_abs)]"

text \<open>
  The words that JavaScript reserves or gives a meaning of their own, and \<^verbatim>\<open>arguments\<close>
  and \<^verbatim>\<open>eval\<close>, which every function body can use.
\<close>

definition reserved_words :: "string list" where
  "reserved_words =
     [''arguments'', ''async'', ''await'', ''break'', ''case'', ''catch'', ''class'', ''const'',
      ''continue'', ''debugger'', ''default'', ''delete'', ''do'', ''else'', ''enum'', ''eval'',
      ''export'', ''extends'', ''false'', ''finally'', ''for'', ''function'', ''if'',
      ''implements'', ''import'', ''in'', ''instanceof'', ''interface'', ''let'', ''new'',
      ''null'', ''package'', ''private'', ''protected'', ''public'', ''return'', ''static'',
      ''super'', ''switch'', ''this'', ''throw'', ''true'', ''try'', ''typeof'', ''var'',
      ''void'', ''while'', ''with'', ''yield'']"

text \<open>
  A name that nothing binds: it is no name of the scope, no reserved word and no name of
  the host's global environment. Reading it throws a \<^verbatim>\<open>ReferenceError\<close>.
\<close>

definition unbound :: "math_library \<Rightarrow> string \<Rightarrow> bool" where
  "unbound M x = (map_of (scope M) x = None \<and> x \<notin> set reserved_words \<and> \<not> global_name M x)"

section \<open>The host: new Function(functionBody)\<close>

text \<open>
  \<^verbatim>\<open>new Function(functionBody)\<close> hands the text \<^verbatim>\<open>return <sanitizedExpr>;\<close> to the JavaScript
  engine. Of JavaScript, this part is modelled: decimal number literals, the thirteen names
  of the scope, the names that nothing binds, the operators \<^verbatim>\<open>+ - * / % **\<close>, the comma
  operator, parentheses and calls. A text with anything else in it (a reserved word or a
  name of the host's global environment, any other character, a literal with a leading
  zero, \<^verbatim>\<open>++\<close>, \<^verbatim>\<open>--\<close>, a comment, a regular expression literal) is \<open>Unmodelled\<close>: the engine may
  well accept it, and nothing is said about the result.
\<close>

datatype token =
  TNumber number | TName string
  | TPlus | TMinus | TTimes | TDivide | TRemainder | TPower
  | TOpen | TClose | TComma | TOther

definition is_name_start :: "char \<Rightarrow> bool" where
  "is_name_start c = (is_letter c \<or> c = CHR ''_'' \<or> c = CHR ''$'')"

definition is_name_part :: "char \<Rightarrow> bool" where
  "is_name_part c = (is_name_start c \<or> is_digit c)"

text \<open>
  A decimal literal at the start of \<open>s\<close> (which starts with a digit, or with a point and a
  digit): digits, a point and digits, an exponent. \<open>lex_number\<close> gives the token and the
  number of characters read. A name character right after the literal is a syntax error or
  the rest of a literal of another kind (\<^verbatim>\<open>0x10\<close>, \<^verbatim>\<open>10n\<close>); the token is then \<open>TOther\<close>.
\<close>

definition lex_exponent :: "string \<Rightarrow> (int \<times> nat) option" where
  "lex_exponent s =
     (case s of
        c # r \<Rightarrow>
          if c = CHR ''e'' \<or> c = CHR ''E'' then
            (case r of
               d # r' \<Rightarrow>
                 if d = CHR ''+'' \<or> d = CHR ''-'' then
                   (if takeWhile is_digit r' = [] then None
                    else Some ((if d = CHR ''-'' then - 1 else 1) *
                                 int (digits_value 0 (takeWhile is_digit r')),
                               2 + length (takeWhile is_digit r')))
                 else if takeWhile is_digit r = [] then None
                 else Some (int (digits_value 0 (takeWhile is_digit r)),
                            1 + length (takeWhile is_digit r))
             | [] \<Rightarrow> None)
          else None
      | [] \<Rightarrow> None)"

definition lex_number :: "string \<Rightarrow> token \<times> nat" where
  "lex_number s =
     (let ip = takeWhile is_digit s;
          r = dropWhile is_digit s;
          fp = (case r of c # r' \<Rightarrow> if c = CHR ''.'' then takeWhile is_digit r' else [] | [] \<Rightarrow> []);
          n1 = length ip + (case r of c # r' \<Rightarrow> if c = CHR ''.'' then 1 + length fp else 0 | [] \<Rightarrow> 0);
          ex = lex_exponent (drop n1 s);
          n = n1 + (case ex of Some (e, k) \<Rightarrow> k | None \<Rightarrow> 0)
      in if (1 < length ip \<and> hd ip = CHR ''0'') \<or>
            (case drop n s of c # r' \<Rightarrow> is_name_start c | [] \<Rightarrow> False)
         then (TOther, n)
         else (TNumber (decimal_number ip fp (case ex of Some (e, k) \<Rightarrow> e | None \<Rightarrow> 0)), n))"

text \<open>One token at the start of a non-empty text, and the number of characters read.\<close>

definition lex_token :: "string \<Rightarrow> token \<times> nat" where
  "lex_token s =
     (let c = hd s; d = (case tl s of d # r \<Rightarrow> Some d | [] \<Rightarrow> None) in
      if is_digit c \<or> (c = CHR ''.'' \<and> (case d of Some x \<Rightarrow> is_digit x | None \<Rightarrow> False))
      then lex_number s
      else if is_name_start c then (TName (takeWhile is_name_part s), length (takeWhile is_name_part s))
      else if c = CHR ''+'' then (if d = Some CHR ''+'' then (TOther, 2) else (TPlus, 1))
      else if c = CHR ''-'' then (if d = Some CHR ''-'' then (TOther, 2) else (TMinus, 1))
      else if c = CHR ''*'' then (if d = Some CHR ''*'' then (TPower, 2) else (TTimes, 1))
      else if c = CHR ''/'' then
        (if d = Some CHR ''/'' \<or> d = Some CHR ''*'' then (TOther, 2) else (TDivide, 1))
      else if c = CHR ''%'' then (TRemainder, 1)
      else if c = CHR ''('' then (TOpen, 1)
      else if c = CHR '')'' then (TClose, 1)
      else if c = CHR '','' then (TComma, 1)
      else (TOther, 1))"

function tokenize :: "string \<Rightarrow> token list" where
  "tokenize s =
     (if s = [] then []
      else fst (lex_token s) # tokenize (drop (max 1 (snd (lex_token s))) s))"
  by pat_completeness auto
termination
  by (relation "measure length") auto

declare tokenize.simps [simp del]

text \<open>The syntax trees of the modelled expressions.\<close>

datatype binary_operator = Add | Subtract | Multiply | Divide | Remainder | Power | Sequence

datatype expr =
  Literal number
  | Name string
  | Negate expr
  | Plus expr
  | Binary binary_operator expr expr
  | Call expr "expr list"
  | Group expr

text \<open>
  The binary operators with their precedence, and whether they associate to the right. The
  comma operator binds least; an argument of a call is parsed above it.
\<close>

fun operator_of :: "token \<Rightarrow> (binary_operator \<times> nat \<times> bool) option" where
  "operator_of TComma = Some (Sequence, 0, False)"
| "operator_of TPlus = Some (Add, 1, False)"
| "operator_of TMinus = Some (Subtract, 1, False)"
| "operator_of TTimes = Some (Multiply, 2, False)"
| "operator_of TDivide = Some (Divide, 2, False)"
| "operator_of TRemainder = Some (Remainder, 2, False)"
| "operator_of TPower = Some (Power, 3, True)"
| "operator_of t = None"

fun is_unary :: "expr \<Rightarrow> bool" where
  "is_unary (Negate e) = True"
| "is_unary (Plus e) = True"
| "is_unary e = False"

text \<open>
  The parser, by precedence climbing; \<open>f\<close> bounds the depth of the calls. A unary
  expression is no operand of \<^verbatim>\<open>**\<close> (\<^verbatim>\<open>-2 ** 2\<close> is a syntax error), a \<^verbatim>\<open>/\<close> where an operand
  is expected starts a regular expression literal, and a comma before the closing
  parenthesis of a call is accepted by some engines only.
\<close>

function parse_expr :: "nat \<Rightarrow> nat \<Rightarrow> token list \<Rightarrow> (expr \<times> token list) completion"
  and parse_operators :: "nat \<Rightarrow> nat \<Rightarrow> expr \<Rightarrow> token list \<Rightarrow> (expr \<times> token list) completion"
  and parse_unary :: "nat \<Rightarrow> token list \<Rightarrow> (expr \<times> token list) completion"
  and parse_primary :: "nat \<Rightarrow> token list \<Rightarrow> (expr \<times> token list) completion"
  and parse_calls :: "nat \<Rightarrow> expr \<Rightarrow> token list \<Rightarrow> (expr \<times> token list) completion"
  and parse_arguments :: "nat \<Rightarrow> token list \<Rightarrow> (expr list \<times> token list) completion"
where
  "parse_expr f p ts =
     (if f = 0 then Unmodelled
      else case parse_unary (f - 1) ts of
        Returns (lhs, rest) \<Rightarrow> parse_operators (f - 1) p lhs rest
      | Throws \<Rightarrow> Throws
      | Unmodelled \<Rightarrow> Unmodelled)"
| "parse_operators f p lhs ts =
     (if f = 0 then Unmodelled
      else case ts of
        [] \<Rightarrow> Returns (lhs, [])
      | t # rest \<Rightarrow>
          (case operator_of t of
             None \<Rightarrow> Returns (lhs, ts)
           | Some (opr, q, right) \<Rightarrow>
               if q < p then Returns (lhs, ts)
               else if opr = Power \<and> is_unary lhs then Throws
               else case parse_expr (f - 1) (if right then q else q + 1) rest of
                 Returns (rhs, rest') \<Rightarrow> parse_operators (f - 1) p (Binary opr lhs rhs) rest'
               | Throws \<Rightarrow> Throws
               | Unmodelled \<Rightarrow> Unmodelled))"
| "parse_unary f ts =
     (if f = 0 then Unmodelled
      else case ts of
        TMinus # rest \<Rightarrow>
          (case parse_unary (f - 1) rest of
             Returns (e, rest') \<Rightarrow> Returns (Negate e, rest')
           | Throws \<Rightarrow> Throws
           | Unmodelled \<Rightarrow> Unmodelled)
      | TPlus # rest \<Rightarrow>
          (case parse_unary (f - 1) rest of
             Returns (e, rest') \<Rightarrow> Returns (Plus e, rest')
           | Throws \<Rightarrow> Throws
           | Unmodelled \<Rightarrow> Unmodelled)
      | _ \<Rightarrow> parse_primary (f - 1) ts)"
| "parse_primary f ts =
     (if f = 0 then Unmodelled
      else case ts of
        TNumber n # rest \<Rightarrow> parse_calls (f - 1) (Literal n) rest
      | TName x # rest \<Rightarrow> parse_calls (f - 1) (Name x) rest
      | TOpen # rest \<Rightarrow>
          (case parse_expr (f - 1) 0 rest of
             Returns (e, TClose # rest') \<Rightarrow> parse_calls (f - 1) (Group e) rest'
           | Returns (e, _) \<Rightarrow> Throws
           | Throws \<Rightarrow> Throws
           | Unmodelled \<Rightarrow> Unmodelled)
      | TDivide # rest \<Rightarrow> Unmodelled
      | _ \<Rightarrow> Throws)"
| "parse_calls f callee ts =
     (if f = 0 then Unmodelled
      else case ts of
        TOpen # TClose # rest \<Rightarrow> parse_calls (f - 1) (Call callee []) rest
      | TOpen # rest \<Rightarrow>
          (case parse_arguments (f - 1) rest of
             Returns (args, rest') \<Rightarrow> parse_calls (f - 1) (Call callee args) rest'
           | Throws \<Rightarrow> Throws
           | Unmodelled \<Rightarrow> Unmodelled)
      | _ \<Rightarrow> Returns (callee, ts))"
| "parse_arguments f ts =
     (if f = 0 then Unmodelled
      else case parse_expr (f - 1) 1 ts of
        Returns (e, TComma # TClose # rest) \<Rightarrow> Unmodelled
      | Returns (e, TComma # rest) \<Rightarrow>
          (case parse_arguments (f - 1) rest of
             Returns (es, rest') \<Rightarrow> Returns (e # es, rest')
           | Throws \<Rightarrow> Throws
           | Unmodelled \<Rightarrow> Unmodelled)
      | Returns (e, TClose # rest) \<Rightarrow> Returns ([e], rest)
      | Returns (e, _) \<Rightarrow> Throws
      | Throws \<Rightarrow> Throws
      | Unmodelled \<Rightarrow> Unmodelled)"
  by pat_completeness auto
termination
  by (relation "measure (\<lambda>x. case x of
        Inl (Inl (f, p, ts)) \<Rightarrow> f
      | Inl (Inr (Inl (f, p, lhs, ts))) \<Rightarrow> f
      | Inl (Inr (Inr (f, ts))) \<Rightarrow> f
      | Inr (Inl (f, ts)) \<Rightarrow> f
      | Inr (Inr (Inl (f, callee, ts))) \<Rightarrow> f
      | Inr (Inr (Inr (f, ts))) \<Rightarrow> f)") auto

declare parse_expr.simps [simp del] parse_operators.simps [simp del] parse_unary.simps [simp del]
  parse_primary.simps [simp del] parse_calls.simps [simp del] parse_arguments.simps [simp del]

text \<open>
  The value of a syntax tree. The operands of an operator are evaluated from left to right,
  the callee before its arguments. A name that nothing binds throws a \<^verbatim>\<open>ReferenceError\<close>
  when it is read. Arithmetic on a value that is no number converts the
  value first, which is not modelled. A call of a number throws a \<^verbatim>\<open>TypeError\<close>. Each of the
  ten functions reads its first argument, \<^verbatim>\<open>undefined\<close> where there is none, and
  \<^verbatim>\<open>undefined\<close> is \<open>NaN\<close> as a number.
\<close>

fun arithmetic :: "math_library \<Rightarrow> binary_operator \<Rightarrow> number \<Rightarrow> number \<Rightarrow> number" where
  "arithmetic M Add x y = num_add x y"
| "arithmetic M Subtract x y = num_sub x y"
| "arithmetic M Multiply x y = num_mul x y"
| "arithmetic M Divide x y = num_div x y"
| "arithmetic M Remainder x y = num_rem x y"
| "arithmetic M Power x y = exponentiate M x y"
| "arithmetic M Sequence x y = y"

fun evaluate :: "math_library \<Rightarrow> angle_mode \<Rightarrow> expr \<Rightarrow> js_value completion"
  and evaluate_arguments :: "math_library \<Rightarrow> angle_mode \<Rightarrow> expr list \<Rightarrow> js_value list completion"
where
  "evaluate M angleMode (Literal n) = Returns (JNumber n)"
| "evaluate M angleMode (Name x) =
     (case map_of (scope M) x of
        Some v \<Rightarrow> Returns v
      | None \<Rightarrow> if unbound M x then Throws else Unmodelled)"
| "evaluate M angleMode (Group e) = evaluate M angleMode e"
| "evaluate M angleMode (Negate e) =
     (case evaluate M angleMode e of
        Returns (JNumber x) \<Rightarrow> Returns (JNumber (num_neg x))
      | Returns v \<Rightarrow> Unmodelled
      | Throws \<Rightarrow> Throws
      | Unmodelled \<Rightarrow> Unmodelled)"
| "evaluate M angleMode (Plus e) =
     (case evaluate M angleMode e of
        Returns (JNumber x) \<Rightarrow> Returns (JNumber x)
      | Returns v \<Rightarrow> Unmodelled
      | Throws \<Rightarrow> Throws
      | Unmodelled \<Rightarrow> Unmodelled)"
| "evaluate M angleMode (Binary opr l r) =
     (case evaluate M angleMode l of
        Returns u \<Rightarrow>
          (case evaluate M angleMode r of
             Returns v \<Rightarrow>
               (if opr = Sequence then Returns v
                else case (u, v) of
                  (JNumber x, JNumber y) \<Rightarrow> Returns (JNumber (arithmetic M opr x y))
                | _ \<Rightarrow> Unmodelled)
           | Throws \<Rightarrow> Throws
           | Unmodelled \<Rightarrow> Unmodelled)
      | Throws \<Rightarrow> Throws
      | Unmodelled \<Rightarrow> Unmodelled)"
| "evaluate M angleMode (Call callee args) =
     (case evaluate M angleMode callee of
        Returns c \<Rightarrow>
          (case evaluate_arguments M angleMode args of
             Returns vs \<Rightarrow>
               (case c of
                  JFunction fn \<Rightarrow>
                    (case vs of
                       [] \<Rightarrow> Returns (JNumber (apply_function M angleMode fn NaN))
                     | JNumber x # _ \<Rightarrow> Returns (JNumber (apply_function M angleMode fn x))
                     | JUndefined # _ \<Rightarrow> Returns (JNumber (apply_function M angleMode fn NaN))
                     | JFunction g # _ \<Rightarrow> Unmodelled)
                | _ \<Rightarrow> Throws)
           | Throws \<Rightarrow> Throws
           | Unmodelled \<Rightarrow> Unmodelled)
      | Throws \<Rightarrow> Throws
      | Unmodelled \<Rightarrow> Unmodelled)"
| "evaluate_arguments M angleMode [] = Returns []"
| "evaluate_arguments M angleMode (e # es) =
     (case evaluate M angleMode e of
        Returns v \<Rightarrow>
          (case evaluate_arguments M angleMode es of
             Returns vs \<Rightarrow> Returns (v # vs)
           | Throws \<Rightarrow> Throws
           | Unmodelled \<Rightarrow> Unmodelled)
      | Throws \<Rightarrow> Throws
      | Unmodelled \<Rightarrow> Unmodelled)"

text \<open>
  A token of the modelled part: no \<open>TOther\<close>, and no name but those of the scope and those
  that nothing binds.
\<close>

fun modelled_token :: "math_library \<Rightarrow> token \<Rightarrow> bool" where
  "modelled_token M TOther = False"
| "modelled_token M (TName x) = (map_of (scope M) x \<noteq> None \<or> unbound M x)"
| "modelled_token M t = True"

text \<open>
  \<^verbatim>\<open>const calculate = new Function(functionBody); const result = calculate();\<close>
  An empty expression leaves \<^verbatim>\<open>return ;\<close>, which returns \<^verbatim>\<open>undefined\<close>. Tokens left over
  after the expression are a syntax error.
\<close>

definition calculate :: "math_library \<Rightarrow> angle_mode \<Rightarrow> string \<Rightarrow> js_value completion" where
  "calculate M angleMode sanitizedExpr =
     (let ts = tokenize sanitizedExpr in
      if \<not> list_all (modelled_token M) ts then Unmodelled
      else if ts = [] then Returns JUndefined
      else case parse_expr (6 * length ts + 6) 0 ts of
        Returns (e, []) \<Rightarrow> evaluate M angleMode e
      | Returns (e, t # rest) \<Rightarrow> Throws
      | Throws \<Rightarrow> Throws
      | Unmodelled \<Rightarrow> Unmodelled)"

section \<open>evaluateExpression\<close>

text \<open>
  Step 6 of the source, the validation of the result. The global \<^verbatim>\<open>isFinite\<close> converts its
  argument to a number first, and a function or \<^verbatim>\<open>undefined\<close> converts to \<open>NaN\<close>.
\<close>

fun validate :: "js_value \<Rightarrow> text_or_number" where
  "validate (JNumber result) =
     (if \<not> isFinite result then Text ''Can't divide by 0''
      else if isNaN result then Text ''Invalid Input''
      else Number result)"
| "validate v = Text ''Can't divide by 0''"

text \<open>
  \<open>evaluateExpression\<close> with what the host provides as its first argument.
  \<open>None\<close>: the call does not return. \<open>Some Unmodelled\<close>: the sanitized expression is outside
  the modelled part of JavaScript. Whatever is thrown inside \<^verbatim>\<open>try\<close> is caught and becomes
  the text \<^verbatim>\<open>'Format Error'\<close>.
\<close>

definition evaluateExpression ::
  "math_library \<Rightarrow> string \<Rightarrow> angle_mode \<Rightarrow> text_or_number completion option" where
  "evaluateExpression M expression angleMode =
     (if expression = [] then Some (Returns (Number (num 0)))
      else case replace_factorials
                  (implicit_multiplication (symbol_replacement (strip_whitespace expression))) of
        None \<Rightarrow> None
      | Some sanitizedExpr \<Rightarrow>
          Some (case calculate M angleMode sanitizedExpr of
                  Returns result \<Rightarrow> Returns (validate result)
                | Throws \<Rightarrow> Returns (Text ''Format Error'')
                | Unmodelled \<Rightarrow> Unmodelled))"

section \<open>The normaliser as the specification words it\<close>

text \<open>
  The specification of implicit multiplication: a multiply operator is inserted between
  two adjacent characters in three cases, (a) a digit before a letter or an open
  parenthesis, (b) a close parenthesis and (c) a factorial mark before a digit, a letter or
  an open parenthesis. \<open>insert_between\<close> inserts the operator between every adjacent pair of
  characters that \<open>P\<close> holds of, in one pass.
\<close>

definition needs_multiply :: "char \<Rightarrow> char \<Rightarrow> bool" where
  "needs_multiply c d =
     ((is_digit c \<and> (is_letter d \<or> d = CHR ''('')) \<or>
      (c = CHR '')'' \<and> (is_digit d \<or> is_letter d \<or> d = CHR ''('')) \<or>
      (c = CHR ''!'' \<and> (is_digit d \<or> is_letter d \<or> d = CHR ''('')))"

fun insert_between :: "(char \<Rightarrow> char \<Rightarrow> bool) \<Rightarrow> string \<Rightarrow> string" where
  "insert_between P (c # d # cs) =
     (if P c d then c # CHR ''*'' # insert_between P (d # cs) else c # insert_between P (d # cs))"
| "insert_between P cs = cs"

definition implicit_multiplication_spec :: "string \<Rightarrow> string" where
  "implicit_multiplication_spec s = insert_between needs_multiply s"

text \<open>
  Where the loop of \<open>factorial\<close> cannot end: the bound \<open>n\<close> is \<open>+\<infinity>\<close> or at least \<open>2 ^ 53\<close>, and
  the counter \<open>i\<close> is a whole number up to \<open>2 ^ 53\<close>, where \<^verbatim>\<open>i++\<close> no longer changes it.
\<close>

definition stuck :: "number \<Rightarrow> number \<Rightarrow> bool" where
  "stuck n i =
     ((n = Inf False \<or> (\<exists>N. n = Fin False N \<and> 2 ^ 53 \<le> N)) \<and>
      (\<exists>k::nat. i = Fin False (real k) \<and> k \<le> 2 ^ 53))"

section \<open>Reading a fraction text back\<close>

text \<open>
  The specification's round trip parses the numerator and the denominator of a fraction
  text and divides them. \<open>read_number\<close> is \<^verbatim>\<open>Number(text)\<close> for the texts that
  \<^verbatim>\<open>Number::toString\<close> writes: an optional minus sign before \<^verbatim>\<open>Infinity\<close>, \<^verbatim>\<open>NaN\<close> or a decimal
  literal (digits, a point and digits, an exponent). \<open>None\<close>: a text of another form.
  \<open>read_fraction\<close> splits the text at its first \<open>/\<close> and reads the two parts.
\<close>

definition read_unsigned :: "string \<Rightarrow> number option" where
  "read_unsigned s =
     (if s = ''Infinity'' then Some (Inf False)
      else if s = ''NaN'' then Some NaN
      else
        (let ip = takeWhile is_digit s;
             r = dropWhile is_digit s;
             fp = (case r of c # r' \<Rightarrow> if c = CHR ''.'' then takeWhile is_digit r' else [] | [] \<Rightarrow> []);
             rest = (case r of c # r' \<Rightarrow> if c = CHR ''.'' then dropWhile is_digit r' else r | [] \<Rightarrow> [])
         in if ip = [] \<and> fp = [] then None
            else if rest = [] then Some (decimal_number ip fp 0)
            else case lex_exponent rest of
              Some (e, k) \<Rightarrow> if k = length rest then Some (decimal_number ip fp e) else None
            | None \<Rightarrow> None))"

definition read_number :: "string \<Rightarrow> number option" where
  "read_number s =
     (case s of
        c # r \<Rightarrow> if c = CHR ''-'' then map_option num_neg (read_unsigned r) else read_unsigned s
      | [] \<Rightarrow> None)"

definition read_fraction :: "string \<Rightarrow> (number \<times> number) option" where
  "read_fraction s =
     (case dropWhile (\<lambda>c. c \<noteq> CHR ''/'') s of
        [] \<Rightarrow> None
      | c # d \<Rightarrow>
          (case (read_number (takeWhile (\<lambda>c. c \<noteq> CHR ''/'') s), read_number d) of
             (Some p, Some q) \<Rightarrow> Some (p, q)
           | _ \<Rightarrow> None))"

section \<open>The magnitudes of binary64\<close>

text \<open>
  \<open>representable m\<close>: the positive real \<open>m\<close> is the magnitude of a finite binary64 number,
  \<open>N * 2 ^ E\<close> with a significand \<open>N\<close> below \<open>2 ^ 53\<close> that is at least \<open>2 ^ 52\<close> unless the
  exponent is the least one. \<open>binary64 x\<close>: the magnitude of the number \<open>x\<close>, if it is finite
  and not zero, is representable.
\<close>

definition representable :: "real \<Rightarrow> bool" where
  "representable m =
     (\<exists>N E. m = of_int N * pow2 E \<and> 0 < N \<and> N < 2 ^ 53 \<and> - 1074 \<le> E \<and>
            (E = - 1074 \<or> 2 ^ 52 \<le> N) \<and> m < 2 ^ 1024)"

fun binary64 :: "number \<Rightarrow> bool" where
  "binary64 (Fin s m) = (m = 0 \<or> representable m)"
| "binary64 x = True"

section \<open>Bounds used in the proofs about decimalToFraction\<close>

text \<open>\<open>ge_nat x n\<close>: the number \<open>x\<close> is \<open>+\<infinity>\<close> or a non-negative number of value at least \<open>n\<close>.\<close>

fun ge_nat :: "number \<Rightarrow> nat \<Rightarrow> bool" where
  "ge_nat NaN n = False"
| "ge_nat (Inf s) n = (\<not> s)"
| "ge_nat (Fin s m) n = (\<not> s \<and> real n \<le> m)"

text \<open>
  The loop invariant of the termination proof: \<open>n\<close> is a lower bound of the denominator
  \<open>k1\<close> that grows with every run of the body.
\<close>

definition cf_inv :: "cf_state \<Rightarrow> nat \<Rightarrow> bool" where
  "cf_inv st n = (ge_nat (k1 st) n \<and> ge_nat (k2 st) 1 \<and> ge_nat (b st) 1 \<and> 1 \<le> n \<and> n \<le> 2 ^ 52)"

text \<open>
  What holds of the state after every run of the body: the denominator \<open>k1\<close> is at least
  one, and while it is finite the numerators are non-negative numbers (they may overflow
  to \<open>+\<infinity>\<close>, but are never \<open>NaN\<close>).
\<close>

definition cf_good :: "cf_state \<Rightarrow> bool" where
  "cf_good st =
     (ge_nat (k1 st) 1 \<and>
      (k1 st \<noteq> Inf False \<longrightarrow>
         ge_nat (k2 st) 0 \<and> ge_nat (b st) 1 \<and> ge_nat (h1 st) 0 \<and> ge_nat (h2 st) 0))"

section \<open>Accuracy of the host's sine\<close>

text \<open>
  \<^verbatim>\<open>Math.sin\<close> is implementation-approximated, so what \<open>sin(90)\<close> evaluates to depends on the
  host. \<open>close_to \<delta> y r\<close>: the number \<open>y\<close> is finite and at most \<open>\<delta>\<close> away from the real \<open>r\<close>.
  \<open>sine_within M \<delta> x\<close>: at the finite argument \<open>x\<close> the sine of the host \<open>M\<close> is within \<open>\<delta>\<close> of
  the sine of \<open>x\<close>.
\<close>

definition close_to :: "real \<Rightarrow> number \<Rightarrow> real \<Rightarrow> bool" where
  "close_to \<delta> y r = (case y of Fin s m \<Rightarrow> \<bar>val s m - r\<bar> \<le> \<delta> | _ \<Rightarrow> False)"

definition sine_within :: "math_library \<Rightarrow> real \<Rightarrow> number \<Rightarrow> bool" where
  "sine_within M \<delta> x = (case x of Fin s m \<Rightarrow> close_to \<delta> (approx_sin M x) (sin (val s m)) | _ \<Rightarrow> False)"

text \<open>
  A host for the examples. Its sine is the correctly rounded one at \<open>90\<close> and at
  \<open>90 * degToRad\<close>, the two arguments that the examples use; what its other functions
  return plays no part in them. Its global environment binds some of the names of the
  standard global object, and no name \<open>sEc\<close>.
\<close>

definition sample_host :: math_library where
  "sample_host =
     \<lparr>approx_sin = (\<lambda>x. if x = num 90 then Fin False (4026203041061939 / 2 ^ 52) else num 1),
      approx_cos = (\<lambda>x. num 1), approx_tan = (\<lambda>x. num 1), approx_log = (\<lambda>x. num 1),
      approx_log10 = (\<lambda>x. num 1), approx_sqrt = (\<lambda>x. num 1),
      exponentiate = (\<lambda>x y. num 1),
      global_name = (\<lambda>x. x \<in> set [''globalThis'', ''Infinity'', ''NaN'', ''undefined'',
        ''isFinite'', ''isNaN'', ''parseFloat'', ''parseInt'', ''Object'', ''Function'',
        ''Array'', ''Number'', ''String'', ''Boolean'', ''Symbol'', ''Math'', ''JSON'',
        ''Date'', ''RegExp'', ''Error'', ''Promise'', ''console'', ''window''])\<rparr>"

lemma pow2_powi: "pow2 e = 2 powi e"
  by (simp add: pow2_def power_int_def inverse_eq_divide power_one_over)

lemma pow2_pos: "0 < pow2 e"
  by (simp add: pow2_def)

lemma pow2_add: "pow2 (i + j) = pow2 i * pow2 j"
  by (simp add: pow2_powi power_int_add)

lemma pow2_Suc: "pow2 (e + 1) = 2 * pow2 e"
  by (simp add: pow2_powi power_int_add)

lemma pow2_nat: "pow2 (int n) = 2 ^ n"
  by (simp add: pow2_def)

lemma pow2_mono: "i \<le> j \<Longrightarrow> pow2 i \<le> pow2 j"
  by (simp add: pow2_powi power_int_increasing)

lemma pow2_neg: "pow2 (- int n) = 1 / 2 ^ n"
  by (simp add: pow2_powi power_int_minus inverse_eq_divide)

lemma ilog2_bounds:
  assumes "0 < q"
  shows "pow2 (ilog2 q) \<le> q" and "q < pow2 (ilog2 q + 1)"
proof -
  have "pow2 (ilog2 q) \<le> q \<and> q < pow2 (ilog2 q + 1)"
  proof (cases "1 \<le> q")
    case True
    define x where "x = \<lfloor>q\<rfloor>"
    have x: "0 < x" using True by (simp add: x_def)
    from bitlen_bounds [OF x] have b: "2 ^ nat (bitlen x - 1) \<le> x" "x < 2 ^ nat (bitlen x)"
      by auto
    have b1: "1 \<le> bitlen x" using x by (simp add: bitlen_alt_def)
    have "real_of_int (2 ^ nat (bitlen x - 1)) \<le> q"
      using b(1) unfolding x_def le_floor_iff .
    then have l: "pow2 (bitlen x - 1) \<le> q" using b1 by (simp add: pow2_def)
    have "q < real_of_int (2 ^ nat (bitlen x))"
      using b(2) unfolding x_def floor_less_iff .
    then have u: "q < pow2 (bitlen x)" using b1 by (simp add: pow2_def)
    show ?thesis using True l u by (simp add: ilog2_def x_def)
  next
    case False
    define r where "r = 1 / q"
    define x where "x = \<lfloor>r\<rfloor>"
    define k where "k = nat (bitlen x - 1)"
    have r1: "1 < r" using False assms by (simp add: r_def)
    have x: "0 < x" using r1 by (simp add: x_def)
    from bitlen_bounds [OF x] have b: "2 ^ k \<le> x" "x < 2 ^ nat (bitlen x)"
      by (auto simp: k_def)
    have b1: "1 \<le> bitlen x" using x by (simp add: bitlen_alt_def)
    have bk: "bitlen x = int k + 1" using b1 by (simp add: k_def)
    have "real_of_int (2 ^ k) \<le> r"
      using b(1) unfolding x_def le_floor_iff .
    then have l: "2 ^ k \<le> r" by simp
    have "r < real_of_int (2 ^ nat (bitlen x))"
      using b(2) unfolding x_def floor_less_iff .
    then have u: "r < 2 ^ (k + 1)" using bk by (simp add: nat_add_distrib)
    have qr: "q = 1 / r" using assms by (simp add: r_def)
    have ql: "1 / 2 ^ (k + 1) < q" unfolding qr using u r1
      by (intro divide_strict_left_mono) auto
    have qu: "q \<le> 1 / 2 ^ k" unfolding qr using l r1
      by (intro divide_left_mono) auto
    show ?thesis
    proof (cases "q * 2 ^ k = 1")
      case True
      then have qe: "q = 1 / 2 ^ k" by (simp add: field_simps)
      have i: "ilog2 q = - int k" using False True bk by (simp add: ilog2_def r_def x_def k_def)
      show ?thesis using assms unfolding i pow2_Suc by (simp add: pow2_neg qe divide_strict_right_mono)
    next
      case f: False
      then have qn: "q \<noteq> 1 / 2 ^ k" by (simp add: field_simps)
      have i: "ilog2 q = - int (k + 1)" using False f bk by (simp add: ilog2_def r_def x_def k_def)
      have "- int (k + 1) + 1 = - int k" by simp
      then show ?thesis using ql qu qn unfolding i by (simp only: pow2_neg) simp
    qed
  qed
  then show "pow2 (ilog2 q) \<le> q" and "q < pow2 (ilog2 q + 1)" by simp_all
qed

lemma rhe_ge: "of_int z \<le> x \<Longrightarrow> z \<le> rhe x"
  by (simp add: rhe_def le_floor_iff) linarith

lemma rhe_le: "x \<le> of_int z \<Longrightarrow> rhe x \<le> z"
  unfolding rhe_def by (auto simp: floor_le_iff)

lemma rhe_of_int: "rhe (of_int z) = z"
  by (simp add: rhe_def)

lemma bitlen_numeral_simps:
  "bitlen 1 = 1"
  "bitlen (numeral Num.One) = 1"
  "bitlen (numeral (Num.Bit0 n)) = bitlen (numeral n) + 1"
  "bitlen (numeral (Num.Bit1 n)) = bitlen (numeral n) + 1"
proof -
  show "bitlen 1 = 1" by (subst compute_bitlen) simp
  then show "bitlen (numeral Num.One) = 1" by simp
  show "bitlen (numeral (Num.Bit0 n)) = bitlen (numeral n) + 1"
    by (subst compute_bitlen) (simp add: numeral_Bit0_div_2)
  show "bitlen (numeral (Num.Bit1 n)) = bitlen (numeral n) + 1"
    by (subst compute_bitlen) (simp add: numeral_Bit1_div_2)
qed

lemmas fl_eval = fl_def round_mag_def ulp_exp_def ilog2_def rhe_def pow2_def bitlen_numeral_simps
  val_def num_def

lemma round_mag_nonneg: "0 \<le> q \<Longrightarrow> 0 \<le> round_mag q"
proof -
  assume "0 \<le> q"
  then have "real_of_int 0 \<le> q / pow2 (ulp_exp q)" using pow2_pos [of "ulp_exp q"] by simp
  then have "0 \<le> rhe (q / pow2 (ulp_exp q))" by (rule rhe_ge)
  then show ?thesis using pow2_pos [of "ulp_exp q"] by (simp add: round_mag_def)
qed

lemma round_mag_ge_nat:
  assumes q: "0 < q" and n: "real n \<le> q" and b: "n \<le> 2 ^ 53"
  shows "real n \<le> round_mag q"
proof (cases "ulp_exp q \<le> 0")
  case True
  define k where "k = nat (- ulp_exp q)"
  have u: "pow2 (ulp_exp q) = 1 / 2 ^ k" using True pow2_neg [of k] by (simp add: k_def)
  have "real_of_int (int n * 2 ^ k) \<le> q / pow2 (ulp_exp q)"
    using n by (simp add: u)
  then have "int n * 2 ^ k \<le> rhe (q / pow2 (ulp_exp q))" by (rule rhe_ge)
  then have "real_of_int (int n * 2 ^ k) \<le> real_of_int (rhe (q / pow2 (ulp_exp q)))"
    by (simp only: of_int_le_iff)
  then show ?thesis by (simp add: round_mag_def u field_simps)
next
  case False
  then have e: "ilog2 q = ulp_exp q + 52" by (simp add: ulp_exp_def max_def split: if_splits)
  have "pow2 (ulp_exp q + 52) \<le> q" using ilog2_bounds(1) [OF q] by (simp add: e)
  then have "pow2 52 * pow2 (ulp_exp q) \<le> q" by (simp add: pow2_add mult.commute)
  then have "real_of_int (2 ^ 52) \<le> q / pow2 (ulp_exp q)"
    using pow2_pos [of "ulp_exp q"] by (simp add: pow2_def field_simps)
  then have "2 ^ 52 \<le> rhe (q / pow2 (ulp_exp q))" by (rule rhe_ge)
  then have r: "2 ^ 52 \<le> real_of_int (rhe (q / pow2 (ulp_exp q)))"
    by (metis of_int_le_iff of_int_numeral of_int_power)
  have "pow2 1 \<le> pow2 (ulp_exp q)" using False by (intro pow2_mono) simp
  then have p: "2 \<le> pow2 (ulp_exp q)" by (simp add: pow2_def)
  have "2 ^ 52 * 2 \<le> real_of_int (rhe (q / pow2 (ulp_exp q))) * pow2 (ulp_exp q)"
    using r p by (intro mult_mono) simp_all
  then have "2 ^ 53 \<le> round_mag q" by (simp add: round_mag_def)
  moreover have "real n \<le> 2 ^ 53" using b by (metis of_nat_le_iff of_nat_numeral of_nat_power)
  ultimately show ?thesis by linarith
qed

lemma round_mag_le_nat:
  assumes q: "0 < q" and n: "q \<le> real n" and b: "n \<le> 2 ^ 53"
  shows "round_mag q \<le> real n"
proof (cases "ulp_exp q \<le> 0")
  case True
  define k where "k = nat (- ulp_exp q)"
  have u: "pow2 (ulp_exp q) = 1 / 2 ^ k" using True pow2_neg [of k] by (simp add: k_def)
  have "q / pow2 (ulp_exp q) \<le> real_of_int (int n * 2 ^ k)"
    using n by (simp add: u)
  then have "rhe (q / pow2 (ulp_exp q)) \<le> int n * 2 ^ k" by (rule rhe_le)
  then have "real_of_int (rhe (q / pow2 (ulp_exp q))) \<le> real_of_int (int n * 2 ^ k)"
    by (simp only: of_int_le_iff)
  then show ?thesis by (simp add: round_mag_def u field_simps)
next
  case False
  then have e: "ilog2 q = ulp_exp q + 52" by (simp add: ulp_exp_def max_def split: if_splits)
  have l: "pow2 (ulp_exp q + 52) \<le> q" using ilog2_bounds(1) [OF q] by (simp add: e)
  have n53: "real n \<le> 2 ^ 53" using b by (metis of_nat_le_iff of_nat_numeral of_nat_power)
  have "pow2 (ulp_exp q + 52) \<le> pow2 53" using l n n53 by (simp add: pow2_def)
  have "\<not> 2 \<le> ulp_exp q"
  proof
    assume "2 \<le> ulp_exp q"
    then have "pow2 54 \<le> pow2 (ulp_exp q + 52)" by (intro pow2_mono) simp
    then show False using l n n53 by (simp add: pow2_def)
  qed
  then have u1: "ulp_exp q = 1" using False by simp
  have uq: "pow2 (ulp_exp q) = 2" by (simp add: u1 pow2_def)
  have q53: "q = 2 ^ 53" using l n n53 by (simp add: u1 pow2_def)
  have "q / 2 = real_of_int (2 ^ 52)" unfolding q53 by simp
  then have "rhe (q / 2) = 2 ^ 52" by (simp only: rhe_of_int)
  then have "round_mag q = real_of_int (2 ^ 52) * 2" unfolding round_mag_def uq by simp
  then show ?thesis using q53 n by simp
qed

lemma round_mag_nat: "n \<le> 2 ^ 53 \<Longrightarrow> round_mag (real n) = real n"
proof (cases "n = 0")
  case True
  then show ?thesis by (simp add: round_mag_def rhe_def)
next
  case False
  assume "n \<le> 2 ^ 53"
  then show ?thesis
    using False round_mag_ge_nat [of "real n" n] round_mag_le_nat [of "real n" n] by simp
qed

lemma fl_nat: "n \<le> 2 ^ 53 \<Longrightarrow> fl s (real n) = Fin s (real n)"
proof -
  assume n: "n \<le> 2 ^ 53"
  then have "real n \<le> 2 ^ 53" by (metis of_nat_le_iff of_nat_numeral of_nat_power)
  moreover have "(2::real) ^ 53 < 2 ^ 1024" by simp
  ultimately have "\<not> (2::real) ^ 1024 \<le> real n" by linarith
  then show ?thesis using n by (simp add: fl_def round_mag_nat)
qed

section \<open>Rounding to binary64\<close>

lemma ilog2_unique:
  assumes "0 < y" and "pow2 L \<le> y" and "y < pow2 (L + 1)"
  shows "ilog2 y = L"
proof -
  note b = ilog2_bounds [OF assms(1)]
  have "\<not> ilog2 y < L"
  proof
    assume "ilog2 y < L"
    then have "pow2 (ilog2 y + 1) \<le> pow2 L" by (intro pow2_mono) simp
    with b(2) assms(2) show False by linarith
  qed
  moreover have "\<not> L < ilog2 y"
  proof
    assume "L < ilog2 y"
    then have "pow2 (L + 1) \<le> pow2 (ilog2 y)" by (intro pow2_mono) simp
    with b(1) assms(3) show False by linarith
  qed
  ultimately show ?thesis by simp
qed

lemma ulp_exp_normal:
  assumes "0 < y" and "- 1074 \<le> u" and "pow2 (u + 52) \<le> y" and "y < pow2 (u + 53)"
  shows "ulp_exp y = u"
proof -
  have e: "u + 52 + 1 = u + 53" by simp
  have "y < pow2 (u + 52 + 1)" unfolding e by (rule assms(4))
  with assms(1,3) have "ilog2 y = u + 52" by (rule ilog2_unique)
  then show ?thesis using assms(2) by (simp add: ulp_exp_def)
qed

lemma ulp_exp_subnormal:
  assumes "0 < y" and "y < pow2 (- 1022)"
  shows "ulp_exp y = - 1074"
proof -
  have "\<not> - 1022 \<le> ilog2 y"
  proof
    assume "- 1022 \<le> ilog2 y"
    then have "pow2 (- 1022) \<le> pow2 (ilog2 y)" by (intro pow2_mono)
    with ilog2_bounds(1) [OF assms(1)] assms(2) show False by linarith
  qed
  then show ?thesis by (simp add: ulp_exp_def)
qed

lemma rhe_near: "\<bar>x - of_int K\<bar> < 1 / 2 \<Longrightarrow> rhe x = K"
proof -
  assume a: "\<bar>x - of_int K\<bar> < 1 / 2"
  show ?thesis
  proof (cases "of_int K \<le> x")
    case True
    then have "\<lfloor>x\<rfloor> = K" using a by (intro floor_unique) auto
    then show ?thesis using a True by (simp add: rhe_def)
  next
    case False
    then have f: "\<lfloor>x\<rfloor> = K - 1" using a by (intro floor_unique) auto
    have "1 / 2 < x - of_int (K - 1)" using a False by simp
    then show ?thesis using a False unfolding rhe_def f by simp
  qed
qed

lemma round_mag_at:
  assumes "ulp_exp y = U" and "m = of_int K * pow2 U" and "\<bar>y - m\<bar> < pow2 U / 2"
  shows "round_mag y = m"
proof -
  have p: "0 < pow2 U" by (rule pow2_pos)
  have "y / pow2 U - of_int K = (y - m) / pow2 U"
    using p by (simp add: assms(2) field_simps)
  then have "\<bar>y / pow2 U - of_int K\<bar> = \<bar>y - m\<bar> / pow2 U"
    using p by (simp add: abs_divide)
  also have "\<dots> < 1 / 2" using assms(3) p by (simp add: field_simps)
  finally have "rhe (y / pow2 U) = K" by (rule rhe_near)
  then show ?thesis by (simp add: round_mag_def assms(1,2))
qed

lemma pow2_shift:
  "pow2 (E + 52) = 2 ^ 52 * pow2 E" "pow2 (E + 53) = 2 ^ 53 * pow2 E"
  "pow2 (E + 51) = 2 ^ 51 * pow2 E"
  "pow2 (E - 1) = pow2 E / 2" "pow2 (E - 2) = pow2 E / 4"
proof -
  show "pow2 (E + 52) = 2 ^ 52 * pow2 E" using pow2_add [of E 52] pow2_nat [of 52] by simp
  show "pow2 (E + 53) = 2 ^ 53 * pow2 E" using pow2_add [of E 53] pow2_nat [of 53] by simp
  show "pow2 (E + 51) = 2 ^ 51 * pow2 E" using pow2_add [of E 51] pow2_nat [of 51] by simp
  show "pow2 (E - 1) = pow2 E / 2" using pow2_Suc [of "E - 1"] by simp
  then show "pow2 (E - 2) = pow2 E / 4" using pow2_Suc [of "E - 2"] by simp
qed

lemma round_mag_near:
  assumes m: "m = of_int N * pow2 E" and N: "0 < N" "N < 2 ^ 53" and E: "- 1074 \<le> E"
    and norm: "E = - 1074 \<or> 2 ^ 52 \<le> N" and y: "0 < y" and near: "\<bar>y - m\<bar> < m / 2 ^ 54"
  shows "round_mag y = m"
proof -
  define p where "p = pow2 E"
  have p: "0 < p" by (simp add: p_def pow2_pos)
  have mp: "m = of_int N * p" by (simp add: m p_def)
  have "N \<le> 2 ^ 53 - 1" using N by simp
  then have "(of_int N :: real) \<le> of_int (2 ^ 53 - 1)" by (simp only: of_int_le_iff)
  then have "of_int N * p \<le> (2 ^ 53 - 1) * p" using p by (intro mult_right_mono) simp_all
  then have m_hi: "m \<le> 2 ^ 53 * p - p" by (simp add: mp algebra_simps)
  have "(1 :: real) \<le> of_int N" using N by simp
  then have "1 * p \<le> of_int N * p" using p by (intro mult_right_mono) simp_all
  then have m_lo: "p \<le> m" by (simp add: mp)
  have half: "m / 2 ^ 54 < p / 2" using m_hi p by simp
  have d: "\<bar>y - m\<bar> < p / 2" using near half by linarith
  show ?thesis
  proof (cases "2 ^ 52 \<le> N")
    case False
    then have e: "E = - 1074" using norm by simp
    from False have "N \<le> 2 ^ 52 - 1" by simp
    then have "(of_int N :: real) \<le> of_int (2 ^ 52 - 1)" by (simp only: of_int_le_iff)
    then have "of_int N * p \<le> (2 ^ 52 - 1) * p" using p by (intro mult_right_mono) simp_all
    then have "m \<le> 2 ^ 52 * p - p" by (simp add: mp algebra_simps)
    then have "y < 2 ^ 52 * p" using d p by linarith
    then have "y < pow2 (- 1022)" using pow2_shift(1) [of E] by (simp add: p_def e)
    then have "ulp_exp y = E" using y e by (simp add: ulp_exp_subnormal)
    then show ?thesis using m d unfolding p_def by (rule round_mag_at)
  next
    case True
    then have "(of_int (2 ^ 52) :: real) \<le> of_int N" by (simp only: of_int_le_iff)
    then have "2 ^ 52 * p \<le> of_int N * p" using p by (intro mult_right_mono) simp_all
    then have m_ge: "2 ^ 52 * p \<le> m" by (simp add: mp)
    show ?thesis
    proof (cases "2 ^ 52 * p \<le> y")
      case True
      have "y < 2 ^ 53 * p" using d m_hi p by linarith
      then have "ulp_exp y = E"
        using y E True pow2_shift(1,2) [of E] by (intro ulp_exp_normal) (simp_all add: p_def)
      then show ?thesis using m d unfolding p_def by (rule round_mag_at)
    next
      case False
      then have ym: "y < m" "m - y < p / 2" using m_ge d by linarith+
      have "m < 2 ^ 52 * p + p / 2" using False ym by linarith
      also have "\<dots> = (2 ^ 52 + 1 / 2) * p" by (simp add: algebra_simps)
      finally have "of_int N * p < (2 ^ 52 + 1 / 2) * p" by (simp only: mp)
      then have "(of_int N :: real) < 2 ^ 52 + 1 / 2" using p by (simp only: mult_less_cancel_right_pos)
      then have "(of_int N :: real) < of_int (2 ^ 52 + 1)" by simp
      then have "N < 2 ^ 52 + 1" by (simp only: of_int_less_iff)
      then have n: "N = 2 ^ 52" using True by simp
      have m52: "m = 2 ^ 52 * p" by (simp add: mp n)
      have d4: "m - y < p / 4" using near ym m52 by simp
      show ?thesis
      proof (cases "E = - 1074")
        case True
        have "y < pow2 (- 1022)" using False pow2_shift(1) [of E] by (simp add: p_def True)
        then have "ulp_exp y = E" using y True by (simp add: ulp_exp_subnormal)
        then show ?thesis using m d unfolding p_def by (rule round_mag_at)
      next
        case e: False
        have i: "E - 1 + 52 = E + 51" "E - 1 + 53 = E + 52" by simp_all
        have "2 ^ 51 * p \<le> y" using d4 m52 p by simp
        then have lo: "pow2 (E - 1 + 52) \<le> y" unfolding i pow2_shift(3) by (simp add: p_def)
        have hi: "y < pow2 (E - 1 + 53)" unfolding i pow2_shift(1) using False by (simp add: p_def)
        have "- 1074 \<le> E - 1" using E e by simp
        with y have "ulp_exp y = E - 1" using lo hi by (rule ulp_exp_normal)
        moreover have "m = of_int (2 ^ 53) * pow2 (E - 1)"
          by (simp add: m52 pow2_shift(4) p_def)
        moreover have "\<bar>y - m\<bar> < pow2 (E - 1) / 2"
          using d4 ym by (simp add: pow2_shift(4) p_def)
        ultimately show ?thesis by (rule round_mag_at)
      qed
    qed
  qed
qed

lemma representable_pos: "representable m \<Longrightarrow> 0 < m"
  unfolding representable_def using pow2_pos by (auto intro: mult_pos_pos)

lemma representable_least: "representable m \<Longrightarrow> pow2 (- 1074) \<le> m"
proof -
  assume "representable m"
  then obtain N E where m: "m = of_int N * pow2 E" and N: "0 < N" and E: "- 1074 \<le> E"
    unfolding representable_def by blast
  have "pow2 (- 1074) \<le> pow2 E" using E by (rule pow2_mono)
  moreover have "1 * pow2 E \<le> of_int N * pow2 E"
    using N pow2_pos [of E] by (intro mult_right_mono) simp_all
  ultimately show ?thesis by (simp add: m)
qed

lemma fl_near:
  assumes "representable m" and "0 < y" and "\<bar>y - m\<bar> < m / 2 ^ 54"
  shows "fl s y = Fin s m"
proof -
  from assms(1) obtain N E where r: "m = of_int N * pow2 E" "0 < N" "N < 2 ^ 53" "- 1074 \<le> E"
    "E = - 1074 \<or> 2 ^ 52 \<le> N" and f: "m < 2 ^ 1024"
    unfolding representable_def by blast
  from r assms(2,3) have "round_mag y = m" by (rule round_mag_near)
  then show ?thesis using assms(2) f by (simp add: fl_def)
qed

lemma fl_representable_id: "representable m \<Longrightarrow> fl s m = Fin s m"
  using fl_near [of m m s] representable_pos [of m] by simp

lemma fl_representable:
  assumes q: "0 < q" and f: "fl s q = Fin t r"
  shows "r = 0 \<or> representable r"
proof (cases "r = 0")
  case False
  define U where "U = ulp_exp q"
  define n where "n = rhe (q / pow2 U)"
  have p: "0 < pow2 U" by (rule pow2_pos)
  from f q have r: "r = of_int n * pow2 U" and fin: "r < 2 ^ 1024"
    by (auto simp: fl_def round_mag_def U_def n_def split: if_splits)
  have U: "- 1074 \<le> U" by (simp add: U_def ulp_exp_def)
  have "real_of_int 0 \<le> q / pow2 U" using q p by simp
  then have "0 \<le> n" unfolding n_def by (rule rhe_ge)
  moreover have "n \<noteq> 0" using False r by auto
  ultimately have n0: "0 < n" by simp
  have "ilog2 q + 1 \<le> U + 53" by (simp add: U_def ulp_exp_def)
  then have "pow2 (ilog2 q + 1) \<le> pow2 (U + 53)" by (rule pow2_mono)
  then have "q < 2 ^ 53 * pow2 U" using ilog2_bounds(2) [OF q] pow2_shift(2) [of U] by simp
  then have "q / pow2 U \<le> real_of_int (2 ^ 53)" using p by (simp add: field_simps)
  then have n53: "n \<le> 2 ^ 53" unfolding n_def by (rule rhe_le)
  show ?thesis
  proof (cases "n = 2 ^ 53")
    case True
    have "r = of_int (2 ^ 52) * pow2 (U + 1)" by (simp add: r True pow2_Suc)
    moreover have "- 1074 \<le> U + 1" using U by simp
    ultimately have "representable r" using fin unfolding representable_def
      by (intro exI [of _ "2 ^ 52"] exI [of _ "U + 1"]) simp
    then show ?thesis ..
  next
    case n: False
    have "U = - 1074 \<or> 2 ^ 52 \<le> n"
    proof (cases "U = - 1074")
      case u: False
      then have "ilog2 q = U + 52" by (simp add: U_def ulp_exp_def max_def split: if_splits)
      then have "2 ^ 52 * pow2 U \<le> q" using ilog2_bounds(1) [OF q] pow2_shift(1) [of U] by simp
      then have "real_of_int (2 ^ 52) \<le> q / pow2 U" using p by (simp add: field_simps)
      then have "2 ^ 52 \<le> n" unfolding n_def by (rule rhe_ge)
      then show ?thesis ..
    qed simp
    then have "representable r" using r n0 n53 n U fin unfolding representable_def
      by (intro exI [of _ n] exI [of _ U]) simp
    then show ?thesis ..
  qed
qed simp

lemma binary64_fl: "0 \<le> q \<Longrightarrow> binary64 (fl s q)"
proof (cases "q = 0")
  case True
  then show ?thesis by (simp add: fl_def)
next
  case False
  assume "0 \<le> q"
  then have q: "0 < q" using False by simp
  show ?thesis
  proof (cases "fl s q")
    case (Fin t r)
    then show ?thesis using fl_representable [OF q Fin] by simp
  qed simp_all
qed

lemma binary64_add: "binary64 (num_add x y)"
  by (cases x; cases y) (simp_all add: binary64_fl)

section \<open>Writing and reading decimal digits\<close>

lemma digit_cases: "d < 10 \<Longrightarrow> d \<in> {0, 1, 2, 3, 4, 5, 6, 7, 8, 9 :: nat}"
  by auto

lemma digit_char_digit: "d < 10 \<Longrightarrow> is_digit (digit_char d)"
  using digit_cases [of d] by (auto simp: is_digit_def digit_char_def)

lemma digit_val_char: "d < 10 \<Longrightarrow> digit_val (digit_char d) = d"
  using digit_cases [of d] by (auto simp: digit_val_def digit_char_def)

lemma show_digits_append: "show_digits n acc = show_digits n [] @ acc"
proof (induction n arbitrary: acc rule: less_induct)
  case (less n)
  show ?case
  proof (cases "n < 10")
    case True
    then show ?thesis by (simp add: show_digits.simps [of n])
  next
    case False
    then have d: "n div 10 < n" by simp
    have "show_digits n acc = show_digits (n div 10) (digit_char (n mod 10) # acc)"
      using False by (simp add: show_digits.simps [of n acc])
    also have "\<dots> = show_digits (n div 10) [] @ digit_char (n mod 10) # acc"
      by (rule less [OF d])
    finally have a: "show_digits n acc = show_digits (n div 10) [] @ digit_char (n mod 10) # acc" .
    have "show_digits n [] = show_digits (n div 10) [digit_char (n mod 10)]"
      using False by (simp add: show_digits.simps [of n "[]"])
    also have "\<dots> = show_digits (n div 10) [] @ [digit_char (n mod 10)]"
      by (rule less [OF d])
    finally show ?thesis using a by simp
  qed
qed

lemma show_nat_small: "n < 10 \<Longrightarrow> show_nat n = [digit_char n]"
  by (simp add: show_nat_def show_digits.simps [of n])

lemma show_nat_large: "\<not> n < 10 \<Longrightarrow> show_nat n = show_nat (n div 10) @ [digit_char (n mod 10)]"
  using show_digits_append [of "n div 10" "[digit_char (n mod 10)]"]
  by (simp add: show_nat_def show_digits.simps [of n "[]"])

lemma show_nat_induct [case_names small large]:
  fixes P :: "nat \<Rightarrow> bool"
  assumes "\<And>n. n < 10 \<Longrightarrow> P n" and "\<And>n. \<not> n < 10 \<Longrightarrow> P (n div 10) \<Longrightarrow> P n"
  shows "P n"
proof (induction n rule: less_induct)
  case (less n)
  show ?case
  proof (cases "n < 10")
    case True
    then show ?thesis by (rule assms(1))
  next
    case False
    then have "n div 10 < n" by simp
    then have "P (n div 10)" by (rule less)
    with False show ?thesis by (rule assms(2))
  qed
qed

lemma show_nat_digits: "c \<in> set (show_nat n) \<Longrightarrow> is_digit c"
proof (induction n rule: show_nat_induct)
  case (small n)
  then show ?case by (simp add: show_nat_small digit_char_digit)
next
  case (large n)
  then show ?case by (auto simp: show_nat_large digit_char_digit)
qed

lemma show_nat_not_empty: "show_nat n \<noteq> []"
  by (cases "n < 10") (simp_all add: show_nat_small show_nat_large)

lemma digits_value_append:
  "digits_value a (xs @ ys) = digits_value (digits_value a xs) ys"
  by (induction xs arbitrary: a) simp_all

lemma digits_value_show_nat:
  "digits_value a (show_nat n) = a * 10 ^ length (show_nat n) + n"
proof (induction n arbitrary: a rule: show_nat_induct)
  case (small n)
  then show ?case by (simp add: show_nat_small digit_val_char)
next
  case (large n)
  have "digits_value a (show_nat n) =
      10 * (a * 10 ^ length (show_nat (n div 10)) + n div 10) + n mod 10"
    using large by (simp add: show_nat_large digits_value_append digit_val_char)
  also have "\<dots> = a * 10 ^ length (show_nat n) + n"
    using large(1) by (simp add: show_nat_large algebra_simps)
  finally show ?case .
qed

lemma digits_value_zeros: "digits_value a (replicate j CHR ''0'') = a * 10 ^ j"
  by (induction j arbitrary: a) (simp_all add: digit_val_def)

lemma show_nat_lower: "0 < n \<Longrightarrow> 10 ^ (length (show_nat n) - 1) \<le> n"
proof (induction n rule: show_nat_induct)
  case (small n)
  then show ?case by (simp add: show_nat_small)
next
  case (large n)
  then have "0 < n div 10" by simp
  then have "10 ^ (length (show_nat (n div 10)) - 1) \<le> n div 10" by (rule large)
  then have "10 * 10 ^ (length (show_nat (n div 10)) - 1) \<le> n" by simp
  moreover have "length (show_nat (n div 10)) \<noteq> 0" using show_nat_not_empty by simp
  ultimately show ?case using large(1) by (simp add: show_nat_large power_eq_if)
qed

lemma show_nat_upper: "n < 10 ^ length (show_nat n)"
proof (induction n rule: show_nat_induct)
  case (small n)
  then show ?case by (simp add: show_nat_small)
next
  case (large n)
  then show ?case by (simp add: show_nat_large)
qed

lemma show_nat_length:
  assumes "10 ^ (k - 1) \<le> n" and "n < 10 ^ k" and "0 < n"
  shows "length (show_nat n) = k"
proof -
  let ?l = "length (show_nat n)"
  have "(10::nat) ^ (?l - 1) < 10 ^ k" using show_nat_lower [OF assms(3)] assms(2) by (rule le_less_trans)
  then have a: "?l - 1 < k" by (intro power_less_imp_less_exp [of 10]) simp_all
  have "(10::nat) ^ (k - 1) < 10 ^ ?l" using assms(1) show_nat_upper [of n] by (rule le_less_trans)
  then have b: "k - 1 < ?l" by (intro power_less_imp_less_exp [of 10]) simp_all
  have "?l \<noteq> 0" using show_nat_not_empty by simp
  then show ?thesis using a b by simp
qed

lemma takeWhile_digits:
  assumes "\<forall>c\<in>set ds. is_digit c" and "r = [] \<or> \<not> is_digit (hd r)"
  shows "takeWhile is_digit (ds @ r) = ds" and "dropWhile is_digit (ds @ r) = r"
proof -
  have t: "takeWhile is_digit r = []" and d: "dropWhile is_digit r = r"
    using assms(2) by (cases r; simp)+
  show "takeWhile is_digit (ds @ r) = ds" using assms(1) t by (simp add: takeWhile_append2)
  show "dropWhile is_digit (ds @ r) = r" using assms(1) d by (simp add: dropWhile_append2)
qed

lemma takeWhile_digits_only:
  assumes "\<forall>c\<in>set ds. is_digit c"
  shows "takeWhile is_digit ds = ds" and "dropWhile is_digit ds = []"
  using takeWhile_digits [OF assms, of "[]"] by simp_all

lemma pow10_powi: "pow10 e = 10 powi e"
  by (simp add: pow10_def power_int_def inverse_eq_divide power_one_over)

lemma pow10_pos: "0 < pow10 e"
  by (simp add: pow10_def)

lemma pow10_add: "pow10 (i + j) = pow10 i * pow10 j"
  by (simp add: pow10_powi power_int_add)

lemma pow10_nat: "pow10 (int n) = 10 ^ n"
  by (simp add: pow10_def)

lemma pow10_mono: "i \<le> j \<Longrightarrow> pow10 i \<le> pow10 j"
  by (simp add: pow10_powi power_int_increasing)

lemma not_digit: "\<not> is_digit CHR ''.''" "\<not> is_digit CHR ''e''" "\<not> is_digit CHR ''I''"
  "\<not> is_digit CHR ''N''" "\<not> is_digit CHR ''-''" "\<not> is_digit CHR ''+''" "\<not> is_digit CHR ''/''"
  "is_digit CHR ''0''"
  by (simp_all add: is_digit_def)

lemma lex_exponent_show:
  "lex_exponent (CHR ''e'' # (if 0 \<le> x then CHR ''+'' else CHR ''-'') # show_nat (nat \<bar>x\<bar>)) =
     Some (x, length (CHR ''e'' # (if 0 \<le> x then CHR ''+'' else CHR ''-'') # show_nat (nat \<bar>x\<bar>)))"
proof -
  have d: "\<forall>c\<in>set (show_nat (nat \<bar>x\<bar>)). is_digit c" using show_nat_digits by blast
  have v: "digits_value 0 (show_nat (nat \<bar>x\<bar>)) = nat \<bar>x\<bar>" by (simp add: digits_value_show_nat)
  show ?thesis
    by (simp add: lex_exponent_def takeWhile_digits_only [OF d] show_nat_not_empty v)
qed

lemma read_unsigned_shape:
  assumes ip: "ip \<noteq> []" "\<forall>c\<in>set ip. is_digit c" and fp: "\<forall>c\<in>set fp. is_digit c"
    and pt: "pt = [] \<and> fp = [] \<or> pt = CHR ''.'' # fp"
    and ex: "ex = [] \<and> e = 0 \<or> lex_exponent ex = Some (e, length ex) \<and> (\<exists>r. ex = CHR ''e'' # r)"
  shows "read_unsigned (ip @ pt @ ex) = Some (decimal_number ip fp e)"
proof -
  have h: "is_digit (hd (ip @ pt @ ex))" using ip by (cases ip) simp_all
  have n1: "ip @ pt @ ex \<noteq> ''Infinity''" using h not_digit(3) by (metis list.sel(1))
  have n2: "ip @ pt @ ex \<noteq> ''NaN''" using h not_digit(4) by (metis list.sel(1))
  have e0: "ex = [] \<or> \<not> is_digit (hd ex)" using ex not_digit(2) by auto
  have r0: "pt @ ex = [] \<or> \<not> is_digit (hd (pt @ ex))"
    using pt e0 not_digit(1) by auto
  have t: "takeWhile is_digit (ip @ pt @ ex) = ip" "dropWhile is_digit (ip @ pt @ ex) = pt @ ex"
    using takeWhile_digits [OF ip(2) r0] by simp_all
  have f: "(case pt @ ex of c # r' \<Rightarrow> if c = CHR ''.'' then takeWhile is_digit r' else [] | [] \<Rightarrow> []) = fp"
  proof (cases "pt = []")
    case True
    then show ?thesis using pt ex by (auto split: list.splits)
  next
    case False
    then show ?thesis using pt takeWhile_digits(1) [OF fp e0] by auto
  qed
  have r: "(case pt @ ex of c # r' \<Rightarrow> if c = CHR ''.'' then dropWhile is_digit r' else pt @ ex
      | [] \<Rightarrow> []) = ex"
  proof (cases "pt = []")
    case True
    then show ?thesis using pt ex by (auto split: list.splits)
  next
    case False
    then show ?thesis using pt takeWhile_digits(2) [OF fp e0] by auto
  qed
  show ?thesis
    unfolding read_unsigned_def Let_def t f r using n1 n2 ip(1) ex by auto
qed

lemma digits_value_leading_zeros:
  "digits_value 0 (CHR ''0'' # replicate j CHR ''0'' @ ds) = digits_value 0 ds"
proof -
  have "digits_value 0 ((CHR ''0'' # replicate j CHR ''0'') @ ds) =
      digits_value (digits_value 0 (replicate (Suc j) CHR ''0'')) ds"
    by (simp only: digits_value_append replicate_Suc)
  then show ?thesis by (simp only: digits_value_zeros) simp
qed

lemma read_layout:
  assumes ds: "ds \<noteq> []" "\<forall>c\<in>set ds. is_digit c"
  shows "read_unsigned (layout ds n) =
    Some (fl False (real (digits_value 0 ds) * pow10 (n - int (length ds))))"
proof -
  define k where "k = int (length ds)"
  define D where "D = digits_value 0 ds"
  have k: "0 < k" using ds(1) by (simp add: k_def)
  consider (whole) "k \<le> n \<and> n \<le> 21" | (point) "\<not> k \<le> n" "0 < n \<and> n \<le> 21"
    | (small) "\<not> 0 < n" "- 6 < n \<and> n \<le> 0" | (exponent) "\<not> (k \<le> n \<and> n \<le> 21)"
      "\<not> (0 < n \<and> n \<le> 21)" "\<not> (- 6 < n \<and> n \<le> 0)"
    by linarith
  then show ?thesis
  proof cases
    case whole
    define z where "z = nat (n - k)"
    have l: "layout ds n = (ds @ replicate z CHR ''0'') @ [] @ []"
      using whole by (simp add: layout_def Let_def k_def z_def)
    have "read_unsigned ((ds @ replicate z CHR ''0'') @ [] @ []) =
        Some (decimal_number (ds @ replicate z CHR ''0'') [] 0)"
      using ds not_digit(8) by (intro read_unsigned_shape) auto
    moreover have "real (digits_value 0 (ds @ replicate z CHR ''0'')) = real D * pow10 (n - k)"
      using whole pow10_nat [of z] by (simp add: digits_value_append digits_value_zeros D_def z_def)
    ultimately show ?thesis unfolding l by (simp add: decimal_number_def pow10_def D_def k_def)
  next
    case point
    define j where "j = nat n"
    have j: "0 < j" "j < length ds" using point unfolding j_def k_def by linarith+
    have l: "layout ds n = take j ds @ (CHR ''.'' # drop j ds) @ []"
      using point by (simp add: layout_def Let_def k_def j_def)
    have "read_unsigned (take j ds @ (CHR ''.'' # drop j ds) @ []) =
        Some (decimal_number (take j ds) (drop j ds) 0)"
    proof (rule read_unsigned_shape)
      show "take j ds \<noteq> []" using j ds(1) by simp
      show "\<forall>c\<in>set (take j ds). is_digit c" using ds(2) by (meson in_set_takeD)
      show "\<forall>c\<in>set (drop j ds). is_digit c" using ds(2) by (meson in_set_dropD)
    qed simp_all
    moreover have "0 - int (length (drop j ds)) = n - k" using j point by (simp add: j_def k_def)
    ultimately show ?thesis unfolding l by (simp add: decimal_number_def D_def k_def)
  next
    case small
    define z where "z = nat (- n)"
    have l: "layout ds n = ''0'' @ (CHR ''.'' # replicate z CHR ''0'' @ ds) @ []"
    proof -
      have "\<not> int (length ds) \<le> n" using small k unfolding k_def by linarith
      then show ?thesis using small by (simp add: layout_def Let_def z_def)
    qed
    have "read_unsigned (''0'' @ (CHR ''.'' # replicate z CHR ''0'' @ ds) @ []) =
        Some (decimal_number ''0'' (replicate z CHR ''0'' @ ds) 0)"
      using ds(2) not_digit(8) by (intro read_unsigned_shape) auto
    moreover have "0 - int (length (replicate z CHR ''0'' @ ds)) = n - k"
      using small by (simp add: z_def k_def)
    moreover have "digits_value 0 (''0'' @ replicate z CHR ''0'' @ ds) = D"
      using digits_value_leading_zeros [of z ds] by (simp add: D_def)
    ultimately show ?thesis unfolding l by (simp only: decimal_number_def D_def k_def)
  next
    case exponent
    define ex where "ex = CHR ''e'' # (if 0 \<le> n - 1 then CHR ''+'' else CHR ''-'') # show_nat (nat \<bar>n - 1\<bar>)"
    have ex: "lex_exponent ex = Some (n - 1, length ex) \<and> (\<exists>r. ex = CHR ''e'' # r)"
      unfolding ex_def using lex_exponent_show [of "n - 1"] by simp
    have c: "\<not> (int (length ds) \<le> n \<and> n \<le> 21)" "\<not> (0 < n \<and> n \<le> 21)" "\<not> (- 6 < n \<and> n \<le> 0)"
      using exponent by (simp_all add: k_def)
    have l0: "layout ds n = (if int (length ds) = 1 then ds else take 1 ds @ ''.'' @ drop 1 ds) @
        ''e'' @ (if 0 \<le> n - 1 then ''+'' else ''-'') @ show_nat (nat \<bar>n - 1\<bar>)"
      unfolding layout_def Let_def using c by (simp only: if_False)
    show ?thesis
    proof (cases "k = 1")
      case True
      have l: "layout ds n = ds @ [] @ ex"
        unfolding l0 using True by (simp add: k_def ex_def)
      have "read_unsigned (ds @ [] @ ex) = Some (decimal_number ds [] (n - 1))"
        using ds ex by (intro read_unsigned_shape) simp_all
      then show ?thesis unfolding l using True by (simp add: decimal_number_def D_def k_def)
    next
      case False
      then have k1: "1 < length ds" using k unfolding k_def by linarith
      have l: "layout ds n = take 1 ds @ (CHR ''.'' # drop 1 ds) @ ex"
        unfolding l0 using False by (simp add: k_def ex_def)
      have "read_unsigned (take 1 ds @ (CHR ''.'' # drop 1 ds) @ ex) =
          Some (decimal_number (take 1 ds) (drop 1 ds) (n - 1))"
      proof (rule read_unsigned_shape)
        show "take 1 ds \<noteq> []" using ds(1) by simp
        show "\<forall>c\<in>set (take 1 ds). is_digit c" using ds(2) by (meson in_set_takeD)
        show "\<forall>c\<in>set (drop 1 ds). is_digit c" using ds(2) by (meson in_set_dropD)
        show "ex = [] \<and> n - 1 = 0 \<or> lex_exponent ex = Some (n - 1, length ex) \<and> (\<exists>r. ex = CHR ''e'' # r)"
          using ex by simp
      qed simp
      moreover have "n - 1 - int (length (drop 1 ds)) = n - k" using k1 by (simp add: k_def)
      ultimately show ?thesis unfolding l by (simp add: decimal_number_def D_def k_def)
    qed
  qed
qed

lemma pow10_neg: "pow10 (- int n) = 1 / 10 ^ n"
  by (simp add: pow10_powi power_int_minus inverse_eq_divide)

lemma pow10_Suc: "pow10 (e + 1) = 10 * pow10 e"
  by (simp add: pow10_powi power_int_add)

lemma scale_up_spec:
  "0 < x \<Longrightarrow> j \<le> 400 \<Longrightarrow>
   j \<le> scale_up j x \<and> scale_up j x \<le> 400 \<and>
   (scale_up j x < 400 \<longrightarrow> 1 \<le> x * 10 ^ (scale_up j x - j)) \<and>
   (j < scale_up j x \<longrightarrow> x * 10 ^ (scale_up j x - j - 1) < 1)"
proof (induction j x rule: scale_up.induct)
  case (1 j x)
  show ?case
  proof (cases "400 \<le> j \<or> 1 \<le> x")
    case True
    then have "scale_up j x = j" by (simp add: scale_up.simps [of j x])
    then show ?thesis using True 1(3) by auto
  next
    case False
    define j' where "j' = scale_up (j + 1) (x * 10)"
    have s: "scale_up j x = j'" using False by (simp add: scale_up.simps [of j x] j'_def)
    have "0 < x * 10" "j + 1 \<le> 400" using 1(2) False by simp_all
    from 1(1) [OF False this]
    have ih: "j + 1 \<le> j'" "j' \<le> 400" "j' < 400 \<longrightarrow> 1 \<le> x * 10 * 10 ^ (j' - (j + 1))"
      "j + 1 < j' \<longrightarrow> x * 10 * 10 ^ (j' - (j + 1) - 1) < 1"
      by (simp_all add: j'_def)
    have e: "j' - j = Suc (j' - (j + 1))" using ih(1) by simp
    have a: "j' < 400 \<longrightarrow> 1 \<le> x * 10 ^ (j' - j)" using ih(3) unfolding e by (simp add: mult.assoc)
    have b: "x * 10 ^ (j' - j - 1) < 1"
    proof (cases "j + 1 < j'")
      case True
      then have "j' - j - 1 = Suc (j' - (j + 1) - 1)" by simp
      then show ?thesis using ih(4) True by (simp add: mult.assoc)
    next
      case f: False
      then have "j' - j - 1 = 0" using ih(1) by simp
      then show ?thesis using False by simp
    qed
    show ?thesis unfolding s using ih(1,2) a b by simp
  qed
qed

lemma dec_exp_bounds:
  assumes "representable m"
  shows "pow10 (dec_exp m - 1) \<le> m" and "m < pow10 (dec_exp m)"
proof -
  have m0: "0 < m" using assms by (rule representable_pos)
  have "pow10 (dec_exp m - 1) \<le> m \<and> m < pow10 (dec_exp m)"
  proof (cases "1 \<le> m")
    case True
    define F where "F = nat \<lfloor>m\<rfloor>"
    define l where "l = length (show_nat F)"
    have F: "0 < F" using True by (simp add: F_def)
    have d: "dec_exp m = int l" using True by (simp add: dec_exp_def F_def l_def)
    have l: "l \<noteq> 0" using show_nat_not_empty by (simp add: l_def)
    have a: "real (10 ^ (l - 1)) \<le> real F"
      using show_nat_lower [OF F] unfolding l_def by (simp only: of_nat_le_iff)
    have b: "real F \<le> m" using True by (simp add: F_def)
    have lo: "10 ^ (l - 1) \<le> m" using order_trans [OF a b] by simp
    have "F + 1 \<le> 10 ^ l" using show_nat_upper [of F] by (simp add: l_def)
    then have c: "real (F + 1) \<le> real (10 ^ l)" by (simp only: of_nat_le_iff)
    have "m < real (F + 1)" using True unfolding F_def by simp linarith
    then have hi: "m < 10 ^ l" using less_le_trans [OF _ c] by simp
    have "int l - 1 = int (l - 1)" using l by simp
    then have "pow10 (dec_exp m - 1) = 10 ^ (l - 1)" unfolding d by (simp only: pow10_nat)
    moreover have "pow10 (dec_exp m) = 10 ^ l" unfolding d by (rule pow10_nat)
    ultimately show ?thesis using lo hi by simp
  next
    case False
    define j where "j = scale_up 0 m"
    have d: "dec_exp m = 1 - int j" using False by (simp add: dec_exp_def j_def)
    from scale_up_spec [OF m0, of 0]
    have s: "j \<le> 400" "j < 400 \<longrightarrow> 1 \<le> m * 10 ^ j" "0 < j \<longrightarrow> m * 10 ^ (j - 1) < 1"
      by (simp_all add: j_def)
    have j0: "0 < j"
    proof (rule ccontr)
      assume "\<not> 0 < j"
      then have "j = 0" by simp
      then show False using s(2) False by simp
    qed
    have j4: "j < 400"
    proof (rule ccontr)
      assume "\<not> j < 400"
      then have j: "j = 400" using s(1) by simp
      have "m * 10 ^ 399 < 1" using s(3) j by simp
      moreover have "1 / 2 ^ 1074 \<le> m"
        using representable_least [OF assms] pow2_neg [of 1074] by simp
      ultimately have "(1 / 2 ^ 1074) * 10 ^ 399 < (1::real)"
        by (smt (verit) mult_right_mono zero_le_numeral zero_le_power)
      then show False by simp
    qed
    have "1 / 10 ^ j \<le> m" using s(2) j4 by (simp add: field_simps)
    moreover have "dec_exp m - 1 = - int j" by (simp add: d)
    ultimately have lo: "pow10 (dec_exp m - 1) \<le> m" by (simp only: pow10_neg)
    have "m < 1 / 10 ^ (j - 1)" using s(3) j0 by (simp add: field_simps)
    moreover have "dec_exp m = - int (j - 1)" using j0 by (simp add: d)
    ultimately have hi: "m < pow10 (dec_exp m)" by (simp only: pow10_neg)
    show ?thesis using lo hi ..
  qed
  then show "pow10 (dec_exp m - 1) \<le> m" and "m < pow10 (dec_exp m)" by simp_all
qed

lemma digits_at_Some:
  "digits_at m k = Some sd \<Longrightarrow>
   rounds_to m sd (dec_exp m - int k) \<and>
   (sd = \<lfloor>m / pow10 (dec_exp m - int k)\<rfloor> \<or> sd = \<lfloor>m / pow10 (dec_exp m - int k)\<rfloor> + 1)"
  by (auto simp: digits_at_def Let_def split: if_splits)

lemma digits_at_found:
  "rounds_to m \<lfloor>m / pow10 (dec_exp m - int k)\<rfloor> (dec_exp m - int k) \<or>
   rounds_to m (\<lfloor>m / pow10 (dec_exp m - int k)\<rfloor> + 1) (dec_exp m - int k) \<Longrightarrow>
   digits_at m k \<noteq> None"
  by (auto simp: digits_at_def Let_def)

lemma floor_digits:
  assumes "representable m" and "0 < k"
  shows "10 ^ (k - 1) \<le> \<lfloor>m / pow10 (dec_exp m - int k)\<rfloor>"
    and "\<lfloor>m / pow10 (dec_exp m - int k)\<rfloor> < 10 ^ k"
proof -
  define P where "P = pow10 (dec_exp m - int k)"
  have P: "0 < P" by (simp add: P_def pow10_pos)
  have "dec_exp m - 1 = (dec_exp m - int k) + int (k - 1)" using assms(2) by simp
  then have "pow10 (dec_exp m - 1) = P * 10 ^ (k - 1)"
    by (simp only: pow10_add pow10_nat P_def)
  then have "P * 10 ^ (k - 1) \<le> m" using dec_exp_bounds(1) [OF assms(1)] by simp
  then have "real_of_int (10 ^ (k - 1)) \<le> m / P" using P by (simp add: field_simps)
  then show "10 ^ (k - 1) \<le> \<lfloor>m / pow10 (dec_exp m - int k)\<rfloor>"
    unfolding P_def by (simp only: le_floor_iff)
  have "dec_exp m = (dec_exp m - int k) + int k" by simp
  then have "pow10 (dec_exp m) = P * 10 ^ k"
    unfolding P_def using pow10_add [of "dec_exp m - int k" "int k"] by (simp add: pow10_nat)
  then have "m < P * 10 ^ k" using dec_exp_bounds(2) [OF assms(1)] by simp
  then have "m / P < real_of_int (10 ^ k)" using P by (simp add: field_simps)
  then show "\<lfloor>m / pow10 (dec_exp m - int k)\<rfloor> < 10 ^ k"
    unfolding P_def by (simp only: floor_less_iff)
qed

lemma digits_at_17:
  assumes "representable m"
  shows "digits_at m 17 \<noteq> None"
proof -
  define P where "P = pow10 (dec_exp m - int 17)"
  define lo where "lo = \<lfloor>m / P\<rfloor>"
  have P: "0 < P" by (simp add: P_def pow10_pos)
  have m0: "0 < m" using assms by (rule representable_pos)
  have l16: "10 ^ 16 \<le> lo" using floor_digits(1) [OF assms, of 17] by (simp add: lo_def P_def)
  then have "(of_int (10 ^ 16) :: real) \<le> of_int lo" by (simp only: of_int_le_iff)
  then have lo16: "10 ^ 16 \<le> (of_int lo :: real)" by simp
  have "of_int lo \<le> m / P" by (simp add: lo_def)
  then have y1: "of_int lo * P \<le> m" using P by (simp add: field_simps)
  have "m / P < of_int lo + 1" by (simp add: lo_def)
  then have y2: "m < (of_int lo + 1) * P" using P by (simp add: field_simps)
  have "10 ^ 16 * P \<le> of_int lo * P" using lo16 P by (intro mult_right_mono) simp_all
  then have Pm: "10 ^ 16 * P \<le> m" using y1 by linarith
  have bound: "P / 2 < m / 2 ^ 54" using Pm P by simp
  have "rounds_to m lo (dec_exp m - int 17) \<or> rounds_to m (lo + 1) (dec_exp m - int 17)"
  proof (cases "m - of_int lo * P \<le> (of_int lo + 1) * P - m")
    case True
    have "\<bar>of_int lo * P - m\<bar> \<le> P / 2" using True y1 by (simp add: algebra_simps)
    then have "\<bar>of_int lo * P - m\<bar> < m / 2 ^ 54" using bound by linarith
    moreover have "0 < of_int lo * P" using lo16 P by (intro mult_pos_pos) simp_all
    ultimately have "fl False (of_int lo * P) = Fin False m" using assms by (intro fl_near)
    then show ?thesis by (simp add: rounds_to_def P_def)
  next
    case False
    have "\<bar>(of_int lo + 1) * P - m\<bar> \<le> P / 2" using False y2 by (simp add: algebra_simps)
    then have "\<bar>(of_int lo + 1) * P - m\<bar> < m / 2 ^ 54" using bound by linarith
    moreover have "0 < (of_int lo + 1) * P" using lo16 P by (intro mult_pos_pos) simp_all
    ultimately have "fl False ((of_int lo + 1) * P) = Fin False m" using assms by (intro fl_near)
    then show ?thesis by (simp add: rounds_to_def P_def)
  qed
  then show ?thesis unfolding lo_def P_def by (rule digits_at_found)
qed

lemma shortest_digits_found:
  "digits_at m 17 \<noteq> None \<Longrightarrow> k \<le> 17 \<Longrightarrow> shortest_digits m k = (sd, k') \<Longrightarrow>
   k \<le> k' \<and> k' \<le> 17 \<and> digits_at m k' = Some sd"
proof (induction m k rule: shortest_digits.induct)
  case (1 x k)
  show ?case
  proof (cases "digits_at x k")
    case (Some s)
    then show ?thesis using 1(3,4) by (simp add: shortest_digits.simps [of x k])
  next
    case None
    then have k: "k + 1 \<le> 17" using 1(2,3) by (cases "k = 17") auto
    have "shortest_digits x (k + 1) = (sd, k')"
      using 1(3,4) None by (simp add: shortest_digits.simps [of x k])
    with 1(1) [OF _ None 1(2) k] 1(3) show ?thesis by simp
  qed
qed

lemma read_show_positive:
  assumes "representable m"
  shows "read_unsigned (show_positive m) = Some (Fin False m)"
    and "\<exists>ds n. show_positive m = layout ds n \<and> ds \<noteq> [] \<and> (\<forall>c\<in>set ds. is_digit c)"
proof -
  obtain sd k where s: "shortest_digits m 1 = (sd, k)" by (cases "shortest_digits m 1")
  from shortest_digits_found [OF digits_at_17 [OF assms] _ s]
  have k: "1 \<le> k" "k \<le> 17" and d: "digits_at m k = Some sd" by simp_all
  have s': "shortest_digits m (Suc 0) = (sd, k)" using s by simp
  define n where "n = dec_exp m"
  from digits_at_Some [OF d]
  have r: "fl False (of_int sd * pow10 (n - int k)) = Fin False m"
    and sd: "sd = \<lfloor>m / pow10 (n - int k)\<rfloor> \<or> sd = \<lfloor>m / pow10 (n - int k)\<rfloor> + 1"
    by (simp_all add: rounds_to_def n_def)
  have k0: "0 < k" using k by simp
  note f = floor_digits [OF assms k0, folded n_def]
  have lo: "10 ^ (k - 1) \<le> sd" and hi: "sd \<le> 10 ^ k" using sd f by auto
  have "read_unsigned (show_positive m) = Some (Fin False m) \<and>
    (\<exists>ds n. show_positive m = layout ds n \<and> ds \<noteq> [] \<and> (\<forall>c\<in>set ds. is_digit c))"
  proof (cases "sd = 10 ^ k")
    case True
    define ds where "ds = show_nat (10 ^ (k - 1))"
    have sp: "show_positive m = layout ds (n + 1)"
      using True by (simp add: show_positive_def s' ds_def n_def)
    have ds: "ds \<noteq> []" "\<forall>c\<in>set ds. is_digit c"
      using show_nat_not_empty show_nat_digits by (auto simp: ds_def)
    have len: "length ds = k" unfolding ds_def using k0 by (intro show_nat_length) simp_all
    have v: "digits_value 0 ds = 10 ^ (k - 1)" by (simp add: ds_def digits_value_show_nat)
    have "n + 1 - int k = (n - int k) + 1" by simp
    then have "pow10 (n + 1 - int k) = 10 * pow10 (n - int k)" by (simp only: pow10_Suc)
    moreover have "(10::real) ^ k = 10 * 10 ^ (k - 1)" using k0 by (simp add: power_eq_if)
    ultimately have "real (digits_value 0 ds) * pow10 (n + 1 - int (length ds)) =
        of_int sd * pow10 (n - int k)"
      by (simp add: v len True)
    then have "read_unsigned (layout ds (n + 1)) = Some (Fin False m)"
      using read_layout [OF ds, of "n + 1"] r by simp
    then show ?thesis using sp ds by auto
  next
    case False
    define ds where "ds = show_nat (nat sd)"
    have sp: "show_positive m = layout ds n"
      using False by (simp add: show_positive_def s' ds_def n_def)
    have ds: "ds \<noteq> []" "\<forall>c\<in>set ds. is_digit c"
      using show_nat_not_empty show_nat_digits by (auto simp: ds_def)
    have sd0: "0 < sd" using lo by (smt (verit) zero_less_power)
    have "10 ^ (k - 1) \<le> nat sd" using lo by (simp add: le_nat_iff)
    moreover have "nat sd < 10 ^ k" using hi False sd0 by (simp add: nat_less_iff)
    ultimately have len: "length ds = k" unfolding ds_def using sd0 by (intro show_nat_length) simp_all
    have v: "real (digits_value 0 ds) = of_int sd" using sd0 by (simp add: ds_def digits_value_show_nat)
    have "read_unsigned (layout ds n) = Some (Fin False m)"
      using read_layout [OF ds, of n] r by (simp add: v len)
    then show ?thesis using sp ds by auto
  qed
  then show "read_unsigned (show_positive m) = Some (Fin False m)"
    and "\<exists>ds n. show_positive m = layout ds n \<and> ds \<noteq> [] \<and> (\<forall>c\<in>set ds. is_digit c)"
    by simp_all
qed

lemma layout_chars:
  assumes "c \<in> set (layout ds n)"
  shows "c \<in> set ds \<or> is_digit c \<or> c \<in> set ''.e+-''"
proof -
  define k where "k = int (length ds)"
  have t: "set (take j ds) \<subseteq> set ds" "set (drop j ds) \<subseteq> set ds" for j
    by (simp_all add: set_take_subset set_drop_subset)
  consider (whole) "k \<le> n \<and> n \<le> 21" | (point) "\<not> (k \<le> n \<and> n \<le> 21)" "0 < n \<and> n \<le> 21"
    | (small) "\<not> (k \<le> n \<and> n \<le> 21)" "\<not> (0 < n \<and> n \<le> 21)" "- 6 < n \<and> n \<le> 0"
    | (exponent) "\<not> (k \<le> n \<and> n \<le> 21)" "\<not> (0 < n \<and> n \<le> 21)" "\<not> (- 6 < n \<and> n \<le> 0)"
    by blast
  then show ?thesis
  proof cases
    case whole
    then have "layout ds n = ds @ replicate (nat (n - k)) CHR ''0''"
      unfolding layout_def Let_def k_def by (simp only: if_True if_False simp_thms)
    then show ?thesis using assms not_digit(8) by auto
  next
    case point
    then have "layout ds n = take (nat n) ds @ ''.'' @ drop (nat n) ds"
      unfolding layout_def Let_def k_def by (simp only: if_True if_False simp_thms)
    then show ?thesis using assms t [of "nat n"] by auto
  next
    case small
    then have "layout ds n = ''0.'' @ replicate (nat (- n)) CHR ''0'' @ ds"
      unfolding layout_def Let_def k_def by (simp only: if_True if_False simp_thms)
    then show ?thesis using assms not_digit(8) by auto
  next
    case exponent
    then have "layout ds n = (if int (length ds) = 1 then ds else take 1 ds @ ''.'' @ drop 1 ds) @
        ''e'' @ (if 0 \<le> n - 1 then ''+'' else ''-'') @ show_nat (nat \<bar>n - 1\<bar>)"
      unfolding layout_def Let_def k_def by (simp only: if_False)
    then have "c \<in> set ds \<or> c \<in> set ''.e+-'' \<or> c \<in> set (show_nat (nat \<bar>n - 1\<bar>))"
      using assms t [of 1] by (auto split: if_splits)
    then show ?thesis using show_nat_digits by blast
  qed
qed

lemma layout_head:
  assumes "ds \<noteq> []" and "\<forall>c\<in>set ds. is_digit c"
  shows "layout ds n \<noteq> [] \<and> is_digit (hd (layout ds n))"
proof -
  obtain d r where ds: "ds = d # r" using assms(1) by (cases ds) auto
  have d: "is_digit d" using assms(2) ds by simp
  have t: "0 < j \<Longrightarrow> take j (d # r) = d # take (j - 1) r" for j by (cases j) simp_all
  have "0 < n \<Longrightarrow> 0 < nat n" by simp
  then show ?thesis
    unfolding layout_def Let_def ds using d not_digit(8) by (auto simp: t)
qed

lemma read_number_to_string:
  assumes "binary64 x"
  shows "read_number (number_to_string x) = Some (if x = Fin True 0 then Fin False 0 else x)"
proof (cases x)
  case NaN
  then show ?thesis by (simp add: read_number_def read_unsigned_def)
next
  case (Inf s)
  then show ?thesis by (simp add: read_number_def read_unsigned_def)
next
  case (Fin s m)
  show ?thesis
  proof (cases "m = 0")
    case True
    have "read_unsigned ''0'' = Some (Fin False 0)"
      by (simp add: read_unsigned_def is_digit_def decimal_number_def fl_def digit_val_def)
    then show ?thesis using Fin True by (auto simp: read_number_def)
  next
    case False
    then have r: "representable m" using assms Fin by simp
    from read_show_positive(2) [OF r] obtain ds n where
      l: "show_positive m = layout ds n" "ds \<noteq> []" "\<forall>c\<in>set ds. is_digit c" by blast
    from layout_head [OF l(2,3), of n] obtain c t where
      c: "show_positive m = c # t" "is_digit c"
      unfolding l(1) [symmetric] by (cases "show_positive m") auto
    have "c \<noteq> CHR ''-''" using c(2) not_digit(5) by auto
    then have "read_number (show_positive m) = Some (Fin False m)"
      using read_show_positive(1) [OF r] by (simp add: read_number_def c(1))
    moreover have "read_number (CHR ''-'' # show_positive m) = Some (Fin True m)"
      using read_show_positive(1) [OF r] by (simp add: read_number_def)
    ultimately show ?thesis using Fin False by (cases s) simp_all
  qed
qed

lemma number_to_string_no_slash: "CHR ''/'' \<notin> set (number_to_string x)"
proof (cases x)
  case (Fin s m)
  obtain sd k where s: "shortest_digits m 1 = (sd, k)" by (cases "shortest_digits m 1")
  then have s': "shortest_digits m (Suc 0) = (sd, k)" by simp
  have "CHR ''/'' \<notin> set (layout (show_nat j) n)" for j n
    using layout_chars [of "CHR ''/''" "show_nat j" n] show_nat_digits [of "CHR ''/''" j] not_digit(7)
    by auto
  then have "CHR ''/'' \<notin> set (show_positive m)" by (simp add: show_positive_def s')
  then show ?thesis using Fin by simp
qed simp_all

lemma read_fraction_text:
  "read_fraction (number_to_string p @ ''/'' @ number_to_string q) =
     (case (read_number (number_to_string p), read_number (number_to_string q)) of
        (Some p', Some q') \<Rightarrow> Some (p', q') | _ \<Rightarrow> None)"
proof -
  have n: "\<forall>c\<in>set (number_to_string p). c \<noteq> CHR ''/''"
    using number_to_string_no_slash [of p] by auto
  have "takeWhile (\<lambda>c. c \<noteq> CHR ''/'') (number_to_string p @ CHR ''/'' # number_to_string q) =
      number_to_string p"
    using n by (simp add: takeWhile_append2)
  moreover have "dropWhile (\<lambda>c. c \<noteq> CHR ''/'') (number_to_string p @ CHR ''/'' # number_to_string q) =
      CHR ''/'' # number_to_string q"
    using n by (simp add: dropWhile_append2)
  ultimately show ?thesis by (simp add: read_fraction_def)
qed

lemma num_nat: "num (real n) = Fin False (real n)"
  by (simp add: num_def)

lemma fact_18_le: "n \<le> 18 \<Longrightarrow> fact n \<le> (2::nat) ^ 53"
proof -
  assume "n \<le> 18"
  then have "(fact n :: nat) \<le> fact 18" by (rule fact_mono)
  also have "(fact 18 :: nat) \<le> 2 ^ 53" by (simp add: fact_numeral)
  finally show ?thesis .
qed

lemma fl_fact: "n \<le> 20 \<Longrightarrow> fl False (real (fact n)) = Fin False (real (fact n))"
proof -
  assume "n \<le> 20"
  then consider "n \<le> 18" | "n = 19" | "n = 20" by linarith
  then show ?thesis
  proof cases
    case 1
    then show ?thesis using fl_nat [of "fact n" False] fact_18_le [of n] by simp
  next
    case 2
    then show ?thesis by (simp add: fact_numeral fl_eval)
  next
    case 3
    then show ?thesis by (simp add: fact_numeral fl_eval)
  qed
qed

lemma factorial_loop_exact:
  "2 \<le> i \<Longrightarrow> i \<le> n + 1 \<Longrightarrow> n \<le> 20 \<Longrightarrow>
   factorial_loop (num (real n)) (num (real i)) (num (real (fact (i - 1)))) = Some (num (real (fact n)))"
proof (induction "n + 1 - i" arbitrary: i)
  case 0
  then have "i = n + 1" by simp
  then have "\<not> num_le (num (real i)) (num (real n))"
    unfolding num_nat by (simp add: val_def)
  then show ?case using \<open>i = n + 1\<close> by (subst factorial_loop.simps) simp
next
  case (Suc k)
  then have i: "i \<le> n" "i \<le> 20" by simp_all
  have "num 1 = Fin False (real 1)" by (simp add: num_def)
  then have a: "num_add (num (real i)) (num 1) = num (real (i + 1))"
    unfolding num_nat using fl_nat [of "i + 1" False] i by (simp add: val_def add.commute)
  have "real (fact (i - 1)) * real i = real (fact i)"
    using Suc.prems(1) by (cases i) (simp_all add: algebra_simps)
  then have m: "num_mul (num (real (fact (i - 1)))) (num (real i)) = num (real (fact (i + 1 - 1)))"
    unfolding num_nat using fl_fact [of i] i by simp
  have le: "num_le (num (real i)) (num (real n))"
    unfolding num_nat using i by (simp add: val_def)
  have "factorial_loop (num (real n)) (num (real (i + 1))) (num (real (fact (i + 1 - 1)))) =
      Some (num (real (fact n)))"
    using Suc by (intro Suc.hyps(1)) simp_all
  then show ?case
    by (subst factorial_loop.simps) (simp only: a m le if_True)
qed

lemma factorial_nat: "n \<le> 20 \<Longrightarrow> factorial (num (real n)) = Some (num (real (fact n)))"
proof -
  assume n: "n \<le> 20"
  consider "n = 0" | "n = 1" | "2 \<le> n" by linarith
  then show ?thesis
  proof cases
    case 1 then show ?thesis by (simp add: factorial_def num_def val_def)
  next
    case 2 then show ?thesis by (simp add: factorial_def num_def val_def)
  next
    case 3
    then have "factorial (num (real n)) = factorial_loop (num (real n)) (num 2) (num 1)"
      by (simp add: factorial_def num_def val_def)
    also have "\<dots> = Some (num (real (fact n)))"
      using factorial_loop_exact [of 2 n] 3 n by simp
    finally show ?thesis .
  qed
qed

lemma factorial_negative: "num_lt x (num 0) \<Longrightarrow> factorial x = Some NaN"
  by (simp add: factorial_def)

text \<open>
  Claim C7. For every integer \<open>n\<close> with \<open>0 \<le> n \<le> 20\<close>, \<open>factorial n\<close> returns exactly
  \<open>n!\<close>: every product of the loop is rounded to binary64 by \<open>num_mul\<close>, and no rounding
  changes it. For every \<open>n < 0\<close> (as JavaScript compares, so also \<open>-Infinity\<close> and negative
  non-integers) \<open>factorial n\<close> returns \<open>NaN\<close>.
\<close>

theorem factorial_exact:
  "(\<forall>n\<le>20. factorial (num (real n)) = Some (num (real (fact n)))) \<and>
   (\<forall>x. num_lt x (num 0) \<longrightarrow> factorial x = Some NaN)"
  by (simp add: factorial_nat factorial_negative)

theorem factorial_exact_witness:
  "(5::nat) \<le> 20 \<and> factorial (num (real 5)) = Some (num 120) \<and>
   num_lt (num (- 3)) (num 0) \<and> factorial (num (- 3)) = Some NaN"
proof -
  have a: "(5::nat) \<le> 20" by simp
  have b: "num_lt (num (- 3)) (num 0)" by (simp add: num_def val_def)
  from factorial_exact a b
  have "factorial (num (real 5)) = Some (num (real (fact 5)))" and "factorial (num (- 3)) = Some NaN"
    by blast+
  then show ?thesis using a b by (simp add: fact_numeral)
qed

section \<open>Termination of the continued-fraction loop\<close>

lemma ge_nat_mono: "ge_nat x n \<Longrightarrow> k \<le> n \<Longrightarrow> ge_nat x k"
  by (cases x) auto

lemma fl_ge_nat:
  assumes "0 < q" and "real n \<le> q" and "n \<le> 2 ^ 53"
  shows "ge_nat (fl False q) n"
  using assms round_mag_ge_nat [of q n] by (simp add: fl_def)

lemma ge_nat_mul:
  assumes "ge_nat a 1" and "ge_nat k n" and "1 \<le> n" and "n \<le> 2 ^ 53"
  shows "ge_nat (num_mul a k) n"
proof (cases a)
  case NaN
  then show ?thesis using assms by simp
next
  case (Inf s)
  then show ?thesis using assms by (cases k) auto
next
  case af: (Fin s x)
  show ?thesis
  proof (cases k)
    case NaN
    then show ?thesis using assms by simp
  next
    case (Inf t)
    then show ?thesis using assms af by auto
  next
    case (Fin t y)
    have x: "1 \<le> x" "\<not> s" and y: "real n \<le> y" "\<not> t" "1 \<le> y"
      using assms af Fin by auto
    have "1 * real n \<le> x * y" using x y by (intro mult_mono) auto
    moreover have "0 < x * y" using x y by simp
    ultimately have "real n \<le> x * y" "0 < x * y" by auto
    then show ?thesis using af Fin x y assms(4) by (simp add: fl_ge_nat)
  qed
qed

lemma ge_nat_add:
  assumes "ge_nat x n" and "ge_nat y k" and "n + k \<le> 2 ^ 53"
  shows "ge_nat (num_add x y) (n + k)"
proof (cases x)
  case NaN
  then show ?thesis using assms by simp
next
  case (Inf s)
  then show ?thesis using assms by (cases y) auto
next
  case xf: (Fin s p)
  show ?thesis
  proof (cases y)
    case NaN
    then show ?thesis using assms by simp
  next
    case (Inf t)
    then show ?thesis using assms xf by auto
  next
    case (Fin t q)
    have p: "real n \<le> p" "\<not> s" and q: "real k \<le> q" "\<not> t"
      using assms xf Fin by auto
    show ?thesis
    proof (cases "p + q = 0")
      case True
      then show ?thesis using p q xf Fin by (simp add: val_def)
    next
      case False
      then have "0 < p + q" "real (n + k) \<le> p + q" using p q by auto
      then have "ge_nat (fl False (p + q)) (n + k)" using assms(3) by (intro fl_ge_nat)
      then show ?thesis using p q xf Fin False \<open>0 < p + q\<close> by (simp add: val_def)
    qed
  qed
qed

lemma Math_floor_nonneg: "0 \<le> m \<Longrightarrow> Math_floor (Fin False m) = Fin False (of_int \<lfloor>m\<rfloor>)"
  by (simp add: val_def)

lemma ge_nat_floor: "ge_nat x 1 \<Longrightarrow> ge_nat (Math_floor x) 1"
proof (cases x)
  case (Fin s m)
  assume "ge_nat x 1"
  then have m: "1 \<le> m" "\<not> s" using Fin by auto
  then have "1 \<le> \<lfloor>m\<rfloor>" by simp
  then have "(1::real) \<le> of_int \<lfloor>m\<rfloor>" by linarith
  then show ?thesis using m Fin by (simp add: Math_floor_nonneg del: Math_floor.simps)
qed auto

text \<open>
  The next \<open>b\<close>, \<^verbatim>\<open>1 / (b - a)\<close> with \<open>a = floor b\<close>: where \<open>b - a\<close> is zero (or rounds to
  zero) the quotient is \<open>+\<infinity>\<close>, and otherwise it is at least one.
\<close>

lemma next_b_ge:
  assumes "0 \<le> m"
  shows "ge_nat (num_div (num 1) (num_sub (Fin False m) (Math_floor (Fin False m)))) 1"
proof -
  define d where "d = m - of_int \<lfloor>m\<rfloor>"
  have d: "0 \<le> d" "d < 1" by (simp_all add: d_def) linarith+
  have one: "num 1 = Fin False 1" by (simp add: num_def)
  show ?thesis
  proof (cases "d = 0")
    case True
    then show ?thesis using assms
      by (simp add: Math_floor_nonneg num_sub_def val_def d_def one del: Math_floor.simps)
  next
    case False
    then have dp: "0 < d" using d by simp
    have le: "round_mag d \<le> 1" using round_mag_le_nat [of d 1] dp d by simp
    have ge: "0 \<le> round_mag d" using d by (simp add: round_mag_nonneg)
    have "(1::real) < 2 ^ 1024" by simp
    then have fd: "fl False d = Fin False (round_mag d)" using dp le by (simp add: fl_def)
    have sub: "num_sub (Fin False m) (Math_floor (Fin False m)) = Fin False (round_mag d)"
      using assms False dp fd
      by (simp add: Math_floor_nonneg num_sub_def val_def d_def del: Math_floor.simps)
    show ?thesis
    proof (cases "round_mag d = 0")
      case True
      then show ?thesis unfolding sub one by simp
    next
      case False
      then have "0 < round_mag d" using ge by simp
      then have "1 \<le> 1 / round_mag d" "0 < 1 / round_mag d" using le by simp_all
      then have "ge_nat (fl False (1 / round_mag d)) 1" by (intro fl_ge_nat) simp_all
      then show ?thesis unfolding sub one using False by simp
    qed
  qed
qed

text \<open>
  One run of the loop body. The new denominator \<open>k1\<close> is at least the sum of the lower bounds
  of the old \<open>k1\<close> and \<open>k2\<close>; the new \<open>b\<close> is at least one unless the old \<open>b\<close> was infinite,
  and then the new \<open>k1\<close> is infinite.
\<close>

lemma k1_step:
  assumes "ge_nat (b st) 1" and "ge_nat (k1 st) n" and "ge_nat (k2 st) j"
    and "1 \<le> n" and "n + j \<le> 2 ^ 53"
  shows "ge_nat (k1 (cf_body st)) (n + j)"
proof -
  have "ge_nat (num_mul (Math_floor (b st)) (k1 st)) n"
    using assms by (intro ge_nat_mul ge_nat_floor) auto
  then show ?thesis using assms by (simp add: cf_body_def Let_def ge_nat_add)
qed

lemma b_step:
  assumes "ge_nat (b st) 1" and "ge_nat (k1 st) 1" and "ge_nat (k2 st) 0"
  shows "ge_nat (b (cf_body st)) 1 \<or> k1 (cf_body st) = Inf False"
proof (cases "b st")
  case NaN
  then show ?thesis using assms by simp
next
  case (Inf s)
  then have s: "\<not> s" using assms by simp
  have "num_mul (Inf False) (k1 st) = Inf False" using assms(2) by (cases "k1 st") auto
  moreover have "num_add (Inf False) (k2 st) = Inf False" using assms(3) by (cases "k2 st") auto
  ultimately show ?thesis using Inf s by (simp add: cf_body_def Let_def)
next
  case (Fin s m)
  then have "\<not> s" "0 \<le> m" using assms by auto
  then show ?thesis using Fin next_b_ge [of m] by (simp add: cf_body_def Let_def del: Math_floor.simps)
qed

lemma continue_bound:
  assumes "cf_continue v sg tol (Fin s c) st" and "ge_nat (k1 st) n"
  shows "real n \<le> val s c \<and> k1 st \<noteq> Inf False"
  using assms by (cases "k1 st") (auto simp: cf_continue_def val_def)

lemma cf_inv_step:
  assumes "cf_inv st n" and "cf_continue v sg tol (Fin s c) (cf_body st)" and "val s c \<le> 2 ^ 52"
  shows "cf_inv (cf_body st) (n + 1) \<and> real (n + 1) \<le> val s c"
proof -
  have "(2::nat) ^ 52 + 1 \<le> 2 ^ 53" by simp
  then have n: "n + 1 \<le> 2 ^ 53" using assms(1) unfolding cf_inv_def by linarith
  have k: "ge_nat (k1 (cf_body st)) (n + 1)"
    using assms(1) n unfolding cf_inv_def by (intro k1_step) auto
  from continue_bound [OF assms(2) k] have c: "real (n + 1) \<le> val s c" "k1 (cf_body st) \<noteq> Inf False"
    by auto
  have "real (n + 1) \<le> 2 ^ 52" using c assms(3) by linarith
  then have n52: "n + 1 \<le> 2 ^ 52" by (metis of_nat_le_iff of_nat_numeral of_nat_power)
  have "ge_nat (k2 st) 0" using assms(1) unfolding cf_inv_def by (auto intro: ge_nat_mono)
  then have "ge_nat (b (cf_body st)) 1"
    using b_step [of st] c assms(1) unfolding cf_inv_def by (auto intro: ge_nat_mono)
  moreover have "ge_nat (k2 (cf_body st)) 1"
    using assms(1) unfolding cf_inv_def by (auto simp: cf_body_def Let_def intro: ge_nat_mono)
  ultimately show ?thesis using k c n52 unfolding cf_inv_def by simp
qed

lemma cf_run_terminates:
  "cf_inv st n \<Longrightarrow> val s c \<le> 2 ^ 52 \<Longrightarrow> nat (\<lfloor>val s c\<rfloor> + 1 - int n) < f \<Longrightarrow>
   \<exists>r. cf_run f v sg tol (Fin s c) st = Some r"
proof (induction f arbitrary: st n)
  case 0
  then show ?case by simp
next
  case (Suc f)
  show ?case
  proof (cases "cf_continue v sg tol (Fin s c) (cf_body st)")
    case False
    then show ?thesis by simp
  next
    case True
    from cf_inv_step [OF Suc.prems(1) True Suc.prems(2)]
    have i: "cf_inv (cf_body st) (n + 1)" and c: "real (n + 1) \<le> val s c" by auto
    from c have "int (n + 1) \<le> \<lfloor>val s c\<rfloor>" by (simp add: le_floor_iff)
    then have "nat (\<lfloor>val s c\<rfloor> + 1 - int (n + 1)) < f" using Suc.prems(3) by linarith
    from Suc.IH [OF i Suc.prems(2) this] show ?thesis using True by simp
  qed
qed

lemma cf_run_loop:
  "cf_run f v sg tol cap st = Some r \<Longrightarrow> cf_loop v sg tol cap st = Some r"
proof (induction f arbitrary: st)
  case 0
  then show ?case by simp
next
  case (Suc f)
  then show ?case by (subst cf_loop.simps) (auto split: if_splits)
qed

text \<open>The first run of the body: the denominator becomes exactly one.\<close>

lemma cf_body_init:
  assumes "0 \<le> m"
  shows "k1 (cf_body (cf_init (Fin False m))) = Fin False 1"
    and "k2 (cf_body (cf_init (Fin False m))) = Fin False 0"
    and "ge_nat (b (cf_body (cf_init (Fin False m)))) 1"
proof -
  have "fl False (real 1) = Fin False (real 1)" by (rule fl_nat) simp
  then have one: "fl False 1 = Fin False 1" by simp
  have "num_mul (Fin False (of_int \<lfloor>m\<rfloor>)) (Fin False 0) = Fin False 0" by (simp add: fl_def)
  moreover have "num_add (Fin False 0) (Fin False 1) = Fin False 1" by (simp add: val_def one)
  ultimately show "k1 (cf_body (cf_init (Fin False m))) = Fin False 1"
    using assms by (simp add: cf_body_def cf_init_def Let_def num_def Math_floor_nonneg del: Math_floor.simps)
  show "k2 (cf_body (cf_init (Fin False m))) = Fin False 0"
    by (simp add: cf_body_def cf_init_def Let_def num_def)
  show "ge_nat (b (cf_body (cf_init (Fin False m)))) 1"
    using next_b_ge [OF assms] by (simp add: cf_body_def cf_init_def Let_def del: Math_floor.simps)
qed

lemma cf_run_init:
  assumes "0 \<le> m" and "val s c \<le> 2 ^ 52"
  shows "\<exists>r. cf_run (nat \<lfloor>val s c\<rfloor> + 3) v sg tol (Fin s c) (cf_init (Fin False m)) = Some r"
proof -
  define st1 where "st1 = cf_body (cf_init (Fin False m))"
  define st2 where "st2 = cf_body st1"
  define f where "f = nat \<lfloor>val s c\<rfloor> + 1"
  have fuel: "nat \<lfloor>val s c\<rfloor> + 3 = Suc (Suc f)" by (simp add: f_def)
  note i = cf_body_init [OF assms(1), folded st1_def]
  show ?thesis
  proof (cases "cf_continue v sg tol (Fin s c) st1")
    case False
    then show ?thesis unfolding fuel by (simp add: st1_def)
  next
    case c1: True
    have k: "ge_nat (k1 st2) (1 + 0)" unfolding st2_def
      using i by (intro k1_step) auto
    show ?thesis
    proof (cases "cf_continue v sg tol (Fin s c) st2")
      case False
      then show ?thesis unfolding fuel using c1 by (simp add: st1_def st2_def)
    next
      case c2: True
      from continue_bound [OF c2 k] have c: "k1 st2 \<noteq> Inf False" by simp
      have "ge_nat (b st2) 1" using b_step [of st1] i c by (simp add: st2_def)
      moreover have "ge_nat (k2 st2) 1" using i by (simp add: st2_def cf_body_def Let_def)
      ultimately have "cf_inv st2 1" using k by (simp add: cf_inv_def)
      moreover have "nat (\<lfloor>val s c\<rfloor> + 1 - int 1) < f" by (simp add: f_def)
      ultimately have "\<exists>r. cf_run f v sg tol (Fin s c) st2 = Some r"
        using assms(2) by (intro cf_run_terminates)
      then show ?thesis unfolding fuel using c1 c2 by (simp add: st1_def st2_def)
    qed
  qed
qed

lemmas num_eval = fl_eval num_sub_def num_gt_def Let_def
lemmas str_eval = show_positive_def shortest_digits.simps digits_at_def rounds_to_def dec_exp_def
  scale_up.simps layout_def show_nat_def show_digits.simps digit_char_def digit_val_def pow10_def decimal_number_def
lemmas dtf_eval = decimalToFraction_def default_tolerance_def default_maxDenominator_def
  cf_loop.simps cf_init_def cf_body_def cf_continue_def cf_error_def

lemma decimalToFraction_half:
  "decimalToFraction (Fin False (1 / 2)) default_tolerance default_maxDenominator =
   Some (Text ''1/2'')"
  by (simp add: dtf_eval str_eval num_eval)

lemma decimalToFraction_returns:
  assumes "0 \<le> m" and "val s c \<le> 2 ^ 52"
  shows "\<exists>r. decimalToFraction (Fin t m) tolerance (Fin s c) = Some r"
proof -
  obtain st where "cf_run (nat \<lfloor>val s c\<rfloor> + 3) (Fin t m)
      (if num_lt (Fin t m) (num 0) then num (- 1) else num 1) tolerance (Fin s c)
      (cf_init (Fin False m)) = Some st"
    using cf_run_init [OF assms] by blast
  then have "cf_loop (Fin t m) (if num_lt (Fin t m) (num 0) then num (- 1) else num 1)
      tolerance (Fin s c) (cf_init (Fin False m)) = Some st"
    by (rule cf_run_loop)
  then show ?thesis by (simp add: decimalToFraction_def Let_def)
qed

text \<open>
  Claim C5 (as the code has it). For every finite value (sign \<open>t\<close>, magnitude \<open>m\<close>), every
  tolerance and every denominator cap of value at most \<open>2 ^ 52\<close> (the default is \<open>1000000\<close>),
  the loop of \<open>decimalToFraction\<close> ends after at most \<open>\<lfloor>cap\<rfloor> + 3\<close> runs of its body, and
  \<open>decimalToFraction\<close> returns. The division \<^verbatim>\<open>1 / (b - a)\<close> has no guard and does divide by
  zero, which is no exception in JavaScript: the next \<open>b\<close> is \<open>+\<infinity>\<close>, and should the loop go
  on, the next denominator is \<open>+\<infinity>\<close> and the loop condition \<open>k1 <= maxDenominator\<close> fails.
\<close>

theorem decimalToFraction_terminates:
  assumes "0 \<le> m" and "val s c \<le> 2 ^ 52"
  shows "(\<exists>st. cf_run (nat \<lfloor>val s c\<rfloor> + 3) (Fin t m) sign tolerance (Fin s c)
                  (cf_init (num_abs (Fin t m))) = Some st \<and>
               cf_loop (Fin t m) sign tolerance (Fin s c) (cf_init (num_abs (Fin t m))) = Some st) \<and>
         (\<exists>r. decimalToFraction (Fin t m) tolerance (Fin s c) = Some r)"
proof -
  obtain st where st: "cf_run (nat \<lfloor>val s c\<rfloor> + 3) (Fin t m) sign tolerance (Fin s c)
      (cf_init (Fin False m)) = Some st"
    using cf_run_init [OF assms] by blast
  from st have "cf_loop (Fin t m) sign tolerance (Fin s c) (cf_init (Fin False m)) = Some st"
    by (rule cf_run_loop)
  with st decimalToFraction_returns [OF assms] show ?thesis by simp
qed

theorem decimalToFraction_terminates_witness:
  "(0::real) \<le> 1 / 2 \<and> val False 1000000 \<le> 2 ^ 52 \<and>
   (\<exists>st. cf_run (nat \<lfloor>val False 1000000\<rfloor> + 3) (Fin False (1 / 2)) (num 1) default_tolerance
            (Fin False 1000000) (cf_init (num_abs (Fin False (1 / 2)))) = Some st \<and>
         cf_loop (Fin False (1 / 2)) (num 1) default_tolerance (Fin False 1000000)
            (cf_init (num_abs (Fin False (1 / 2)))) = Some st) \<and>
   (\<exists>r. decimalToFraction (Fin False (1 / 2)) default_tolerance (Fin False 1000000) = Some r)"
proof -
  have a: "(0::real) \<le> 1 / 2" by simp
  have b: "val False 1000000 \<le> 2 ^ 52" by (simp add: val_def)
  from decimalToFraction_terminates [OF a b, of False "num 1" default_tolerance] a b
  show ?thesis by simp
qed

text \<open>
  Claim C5, the division by zero. In \<open>decimalToFraction(0.5)\<close> the first run of the body
  leaves \<open>b = 2\<close>; the second has \<open>a = 2\<close>, so \<open>b - a\<close> is zero, and sets \<open>b\<close> to \<open>1 / 0\<close>, which
  is \<open>+\<infinity>\<close>. The loop ends there and the result is \<open>1/2\<close>.
\<close>

theorem decimalToFraction_divides_by_zero:
  "b (cf_body (cf_init (Fin False (1 / 2)))) = Fin False 2 \<and>
   num_sub (Fin False 2) (Math_floor (Fin False 2)) = Fin False 0 \<and>
   num_div (num 1) (Fin False 0) = Inf False \<and>
   b (cf_body (cf_body (cf_init (Fin False (1 / 2))))) = Inf False \<and>
   cf_loop (Fin False (1 / 2)) (num 1) default_tolerance default_maxDenominator
     (cf_init (Fin False (1 / 2))) = Some (cf_body (cf_body (cf_init (Fin False (1 / 2))))) \<and>
   decimalToFraction (Fin False (1 / 2)) default_tolerance default_maxDenominator =
     Some (Text ''1/2'')"
  by (simp add: dtf_eval str_eval num_eval)

text \<open>
  Claim C4 (the code differs). For a negative value the loop condition compares the error,
  which is never negative, with \<^verbatim>\<open>value * tolerance\<close>, which is negative: the loop only ends
  once the denominator is over the cap, and the decimal is returned. So
  \<open>decimalToFraction(-0.5)\<close> is \<open>-0.5\<close>, where \<open>decimalToFraction(0.5)\<close> is \<open>1/2\<close>.
\<close>

theorem decimalToFraction_negative_half:
  "decimalToFraction (Fin True (1 / 2)) default_tolerance default_maxDenominator =
     Some (Number (Fin True (1 / 2))) \<and>
   decimalToFraction (Fin True (1 / 2)) default_tolerance default_maxDenominator \<noteq>
     Some (Text ''-1/2'')"
  by (simp add: dtf_eval str_eval num_eval)

section \<open>The fraction that decimalToFraction returns\<close>

lemma fl_not_NaN: "fl s q \<noteq> NaN"
  by (simp add: fl_def)

lemma fl_nonneg: "0 \<le> q \<Longrightarrow> ge_nat (fl False q) 0"
  using round_mag_nonneg [of q] by (simp add: fl_def)

lemma ge0_mul:
  assumes "ge_nat a 1" and "a \<noteq> Inf False" and "ge_nat h 0"
  shows "ge_nat (num_mul a h) 0"
proof -
  obtain x where a: "a = Fin False x" "1 \<le> x" using assms(1,2) by (cases a) auto
  show ?thesis
  proof (cases h)
    case (Fin s y)
    then have "\<not> s" "0 \<le> y" using assms(3) by auto
    then show ?thesis using a Fin by (simp add: fl_nonneg)
  qed (use assms(3) a in auto)
qed

lemma floor_finite: "ge_nat x 1 \<Longrightarrow> x \<noteq> Inf False \<Longrightarrow> Math_floor x \<noteq> Inf False"
  by (cases x) auto

lemma h_step:
  assumes "ge_nat (b st) 1" and "b st \<noteq> Inf False" and "ge_nat (h1 st) 0" and "ge_nat (h2 st) 0"
  shows "ge_nat (h1 (cf_body st)) 0" and "ge_nat (h2 (cf_body st)) 0"
proof -
  have "ge_nat (num_mul (Math_floor (b st)) (h1 st)) 0"
    using assms by (intro ge0_mul ge_nat_floor floor_finite) auto
  then have "ge_nat (num_add (num_mul (Math_floor (b st)) (h1 st)) (h2 st)) (0 + 0)"
    using assms(4) by (intro ge_nat_add) auto
  then show "ge_nat (h1 (cf_body st)) 0" by (simp add: cf_body_def Let_def)
  show "ge_nat (h2 (cf_body st)) 0" using assms(3) by (simp add: cf_body_def Let_def)
qed

lemma b_inf_step:
  assumes "b st = Inf False" and "ge_nat (k1 st) 1" and "ge_nat (k2 st) 0"
  shows "k1 (cf_body st) = Inf False"
proof -
  have "num_mul (Inf False) (k1 st) = Inf False" using assms(2) by (cases "k1 st") auto
  moreover have "num_add (Inf False) (k2 st) = Inf False" using assms(3) by (cases "k2 st") auto
  ultimately show ?thesis using assms(1) by (simp add: cf_body_def Let_def)
qed

lemma cf_good_step:
  assumes "cf_good st" and "k1 st \<noteq> Inf False"
  shows "cf_good (cf_body st)"
proof -
  from assms have g: "ge_nat (k1 st) 1" "ge_nat (k2 st) 0" "ge_nat (b st) 1"
    "ge_nat (h1 st) 0" "ge_nat (h2 st) 0"
    by (auto simp: cf_good_def)
  have k: "ge_nat (k1 (cf_body st)) (1 + 0)" using g by (intro k1_step) auto
  have "ge_nat (k2 (cf_body st)) 0" using g(1) by (auto simp: cf_body_def Let_def intro: ge_nat_mono)
  moreover have "ge_nat (b (cf_body st)) 1" if "k1 (cf_body st) \<noteq> Inf False"
    using b_step [OF g(3) g(1) g(2)] that by simp
  moreover have "ge_nat (h1 (cf_body st)) 0 \<and> ge_nat (h2 (cf_body st)) 0"
    if "k1 (cf_body st) \<noteq> Inf False"
  proof -
    have "b st \<noteq> Inf False" using b_inf_step [OF _ g(1) g(2)] that by blast
    then show ?thesis using h_step [OF g(3) _ g(4) g(5)] by simp
  qed
  ultimately show ?thesis using k by (simp add: cf_good_def)
qed

lemma cf_good_init:
  assumes "0 \<le> m"
  shows "cf_good (cf_body (cf_init (Fin False m)))"
proof -
  note i = cf_body_init [OF assms]
  have "ge_nat (fl False (real_of_int \<lfloor>m\<rfloor>)) 0" using assms by (intro fl_nonneg) simp
  then have "ge_nat (num_mul (Fin False (of_int \<lfloor>m\<rfloor>)) (Fin False 1)) 0" by simp
  then have "ge_nat (num_add (num_mul (Fin False (of_int \<lfloor>m\<rfloor>)) (Fin False 1)) (Fin False 0)) (0 + 0)"
    by (intro ge_nat_add) auto
  then have "ge_nat (h1 (cf_body (cf_init (Fin False m)))) 0"
    using assms by (simp add: cf_body_def cf_init_def Let_def num_def Math_floor_nonneg del: Math_floor.simps num_add.simps num_mul.simps)
  moreover have "ge_nat (h2 (cf_body (cf_init (Fin False m)))) 0"
    by (simp add: cf_body_def cf_init_def Let_def num_def)
  ultimately show ?thesis using i by (simp add: cf_good_def)
qed

lemma cf_run_good:
  "cf_run f v sg tol (Fin s c) st = Some r \<Longrightarrow> cf_good (cf_body st) \<Longrightarrow> cf_good r"
proof (induction f arbitrary: st)
  case 0
  then show ?case by simp
next
  case (Suc f)
  show ?case
  proof (cases "cf_continue v sg tol (Fin s c) (cf_body st)")
    case False
    then show ?thesis using Suc.prems by simp
  next
    case True
    have "ge_nat (k1 (cf_body st)) 1" using Suc.prems(2) by (simp add: cf_good_def)
    from continue_bound [OF True this] have "k1 (cf_body st) \<noteq> Inf False" by simp
    with Suc.prems(2) have "cf_good (cf_body (cf_body st))" by (rule cf_good_step)
    moreover have "cf_run f v sg tol (Fin s c) (cf_body st) = Some r" using Suc.prems(1) True by simp
    ultimately show ?thesis by (rule Suc.IH [rotated])
  qed
qed

lemma not_gt_imp_le: "x \<noteq> NaN \<Longrightarrow> y \<noteq> NaN \<Longrightarrow> \<not> num_gt x y \<Longrightarrow> num_le x y"
  by (cases x; cases y) (auto simp: num_gt_def)

lemma num_sub_finite_not_NaN: "x \<noteq> NaN \<Longrightarrow> num_sub (Fin t m) x \<noteq> NaN"
  by (cases x) (auto simp: num_sub_def fl_not_NaN)

lemma num_abs_not_NaN: "x \<noteq> NaN \<Longrightarrow> num_abs x \<noteq> NaN"
  by (cases x) auto

lemma cf_error_not_NaN:
  assumes "cf_good st" and "k1 st \<noteq> Inf False" and "sg = Fin u 1"
  shows "cf_error (Fin t m) sg st \<noteq> NaN"
proof -
  from assms obtain z where k: "k1 st = Fin False z" "1 \<le> z"
    by (cases "k1 st") (auto simp: cf_good_def)
  have h: "ge_nat (h1 st) 0" using assms by (simp add: cf_good_def)
  have p: "num_mul sg (h1 st) \<noteq> NaN" using h assms(3) by (cases "h1 st") (auto simp: fl_not_NaN)
  have "num_div (num_mul sg (h1 st)) (k1 st) \<noteq> NaN"
    using p k by (cases "num_mul sg (h1 st)") (auto simp: fl_not_NaN)
  then show ?thesis unfolding cf_error_def by (intro num_abs_not_NaN num_sub_finite_not_NaN)
qed

lemma cf_run_body:
  "cf_run f value sign tolerance maxDenominator st0 = Some st \<Longrightarrow> \<exists>st'. st = cf_body st'"
  by (induction f arbitrary: st0) (auto split: if_splits)

lemma binary64_mul_sign:
  assumes "ge_nat x 0"
  shows "binary64 (num_mul (Fin u 1) x)"
proof (cases x)
  case (Fin a h)
  then have "0 \<le> 1 * h" using assms by simp
  then have "binary64 (fl (u \<noteq> a) (1 * h))" by (rule binary64_fl)
  then show ?thesis using Fin by simp
qed simp_all

lemma error_zero_sign:
  "num_abs (num_sub (Fin t m) (Fin a 0)) = num_abs (num_sub (Fin t m) (Fin d 0))"
proof (cases "m = 0")
  case True
  then show ?thesis by (simp add: num_sub_def val_def)
next
  case False
  then show ?thesis by (cases "fl t m") (auto simp: num_sub_def val_def)
qed

lemma read_half: "read_fraction ''1/2'' = Some (Fin False 1, Fin False 2)"
  by (simp add: read_fraction_def read_number_def read_unsigned_def is_digit_def
      decimal_number_def digit_val_def pow10_def fl_eval)

text \<open>
  Claim C6. Whenever \<open>decimalToFraction\<close> returns a text, the text is read back as a
  numerator \<open>p\<close> and a denominator \<open>q\<close> (split at the \<open>/\<close>, each part read as \<^verbatim>\<open>Number(text)\<close>
  reads it), and \<open>p / q\<close>, divided as JavaScript divides, is within the tolerance of the
  value: \<open>|value - p / q| \<le> tolerance\<close>. The value is any finite number, the tolerance any
  number but \<open>NaN\<close>, the cap at most \<open>2 ^ 52\<close>.
\<close>

theorem decimalToFraction_round_trip:
  assumes "0 \<le> m" and "val s c \<le> 2 ^ 52" and "\<not> isNaN tolerance"
    and "decimalToFraction (Fin t m) tolerance (Fin s c) = Some (Text txt)"
  shows "\<exists>p q. read_fraction txt = Some (p, q) \<and>
               num_le (num_abs (num_sub (Fin t m) (num_div p q))) tolerance"
proof -
  define sg where "sg = (if num_lt (Fin t m) (num 0) then num (- 1) else num 1)"
  have "\<exists>u. sg = Fin u 1" by (auto simp: sg_def num_def)
  then obtain u where u: "sg = Fin u 1" by blast
  obtain st where run: "cf_run (nat \<lfloor>val s c\<rfloor> + 3) (Fin t m) sg tolerance (Fin s c)
      (cf_init (Fin False m)) = Some st"
    using cf_run_init [OF assms(1,2)] by blast
  then have loop: "cf_loop (Fin t m) sg tolerance (Fin s c) (cf_init (Fin False m)) = Some st"
    by (rule cf_run_loop)
  have good: "cf_good st"
  proof -
    have "nat \<lfloor>val s c\<rfloor> + 3 = Suc (nat \<lfloor>val s c\<rfloor> + 2)" by simp
    with run have r: "cf_run (Suc (nat \<lfloor>val s c\<rfloor> + 2)) (Fin t m) sg tolerance (Fin s c)
      (cf_init (Fin False m)) = Some st" by simp
    show ?thesis  using cf_run_good [OF r cf_good_init [OF assms(1)]] .
  qed
  define p where "p = num_mul sg (h1 st)"
  define q where "q = k1 st"
  from assms(4) loop
  have res: "\<not> num_gt q (Fin s c)" "\<not> num_gt (cf_error (Fin t m) sg st) tolerance"
    "txt = number_to_string p @ ''/'' @ number_to_string q"
    by (auto simp: decimalToFraction_def Let_def sg_def p_def q_def split: if_splits)
  have q1: "ge_nat q 1" using good by (simp add: cf_good_def q_def)
  then have fin: "k1 st \<noteq> Inf False" using res(1) by (cases q) (auto simp: num_gt_def q_def)
  have "cf_error (Fin t m) sg st \<noteq> NaN" using good fin u by (rule cf_error_not_NaN)
  moreover have "tolerance \<noteq> NaN" using assms(3) by (cases tolerance) auto
  ultimately have "num_le (cf_error (Fin t m) sg st) tolerance" using res(2) by (intro not_gt_imp_le)
  then have err: "num_le (num_abs (num_sub (Fin t m) (num_div p q))) tolerance"
    by (simp add: cf_error_def p_def q_def)
  obtain k where k: "q = Fin False k" "1 \<le> k"
    using q1 fin by (cases q) (auto simp: q_def)
  obtain st' where "st = cf_body st'" using cf_run_body [OF run] by blast
  then have "q = num_add (num_mul (Math_floor (b st')) (k1 st')) (k2 st')"
    by (simp add: q_def cf_body_def Let_def)
  then have bq: "binary64 q" by (simp only: binary64_add)
  have "q \<noteq> Fin True 0" using k by simp
  with read_number_to_string [OF bq] have rq: "read_number (number_to_string q) = Some q"
    by (simp only: if_False)
  have "ge_nat (h1 st) 0" using good fin by (simp add: cf_good_def)
  then have "binary64 p" unfolding p_def u by (rule binary64_mul_sign)
  then have rp: "read_number (number_to_string p) = Some (if p = Fin True 0 then Fin False 0 else p)"
    by (rule read_number_to_string)
  show ?thesis
  proof (cases "p = Fin True 0")
    case False
    then have "read_fraction txt = Some (p, q)"
      unfolding res(3) read_fraction_text using rp rq by simp
    then show ?thesis using err by blast
  next
    case True
    then have r: "read_fraction txt = Some (Fin False 0, q)"
      unfolding res(3) read_fraction_text using rp rq by simp
    have z: "num_div (Fin a 0) q = Fin a 0" for a using k by (simp add: fl_def)
    have "num_abs (num_sub (Fin t m) (num_div (Fin False 0) q)) =
        num_abs (num_sub (Fin t m) (num_div p q))"
      unfolding True z by (rule error_zero_sign)
    then show ?thesis using r err by auto
  qed
qed

theorem decimalToFraction_round_trip_witness:
  "(0::real) \<le> 1 / 2 \<and> val False 1000000 \<le> 2 ^ 52 \<and> \<not> isNaN default_tolerance \<and>
   decimalToFraction (Fin False (1 / 2)) default_tolerance (Fin False 1000000) = Some (Text ''1/2'') \<and>
   read_fraction ''1/2'' = Some (Fin False 1, Fin False 2) \<and>
   (\<exists>p q. read_fraction ''1/2'' = Some (p, q) \<and>
          num_le (num_abs (num_sub (Fin False (1 / 2)) (num_div p q))) default_tolerance)"
proof -
  have a: "(0::real) \<le> 1 / 2" by simp
  have b: "val False 1000000 \<le> 2 ^ 52" by (simp add: val_def)
  have c: "\<not> isNaN default_tolerance" by (simp add: default_tolerance_def decimal_number_def fl_def)
  have d: "decimalToFraction (Fin False (1 / 2)) default_tolerance (Fin False 1000000) =
      Some (Text ''1/2'')"
    using decimalToFraction_half by (simp add: default_maxDenominator_def num_def)
  from decimalToFraction_round_trip [OF a b c d] a b c d read_half show ?thesis by simp
qed

section \<open>evaluateExpression\<close>

lemmas norm_eval = strip_whitespace.simps space_length_def white_space_def replace_all.simps
  symbol_replacement_def glyph_times_def glyph_divide_def glyph_pi_def glyph_phi_def glyph_sqrt_def
  implicit_multiplication_def replace_factorials.simps factorial_match_def is_digit_def is_letter_def
lemmas lex_eval = tokenize.simps lex_token_def lex_number_def lex_exponent_def is_name_start_def
  is_name_part_def digits_value.simps digit_val_def decimal_number_def pow10_def
lemmas parse_eval = parse_expr.simps parse_operators.simps parse_unary.simps parse_primary.simps
  parse_calls.simps parse_arguments.simps
lemmas run_eval = evaluateExpression_def calculate_def scope_def

subsection \<open>Implicit multiplication\<close>

lemma insert_between_Cons: "\<exists>xs. insert_between P (d # cs) = d # xs"
  by (cases cs) auto

lemma insert_between_head: "(\<And>e. \<not> P d e) \<Longrightarrow> insert_between P (d # cs) = d # insert_between P cs"
  by (cases cs) auto

lemma case1_insert:
  "implicit_mul_case1 s = insert_between (\<lambda>c d. is_digit c \<and> (is_letter d \<or> d = CHR ''('')) s"
proof (induction s rule: implicit_mul_case1.induct)
  case (1 c d cs)
  show ?case
  proof (cases "is_digit c \<and> (is_letter d \<or> d = CHR ''('')")
    case True
    then have "\<not> is_digit d" by (auto simp: is_digit_def is_letter_def)
    then have "insert_between (\<lambda>c d. is_digit c \<and> (is_letter d \<or> d = CHR ''('')) (d # cs) =
        d # insert_between (\<lambda>c d. is_digit c \<and> (is_letter d \<or> d = CHR ''('')) cs"
      by (intro insert_between_head) simp
    then show ?thesis using True 1 by simp
  next
    case False
    then show ?thesis using 1 by auto
  qed
qed simp_all

lemma case2_insert:
  "implicit_mul_case2 s =
   insert_between (\<lambda>c d. c = CHR '')'' \<and> (is_letter d \<or> is_digit d \<or> d = CHR ''('')) s"
proof (induction s rule: implicit_mul_case2.induct)
  case (1 c d cs)
  show ?case
  proof (cases "c = CHR '')'' \<and> (is_letter d \<or> is_digit d \<or> d = CHR ''('')")
    case True
    then have "d \<noteq> CHR '')''" by (auto simp: is_digit_def is_letter_def)
    then have "insert_between (\<lambda>c d. c = CHR '')'' \<and> (is_letter d \<or> is_digit d \<or> d = CHR ''('')) (d # cs) =
        d # insert_between (\<lambda>c d. c = CHR '')'' \<and> (is_letter d \<or> is_digit d \<or> d = CHR ''('')) cs"
      by (intro insert_between_head) simp
    then show ?thesis using True 1 by simp
  next
    case False
    then show ?thesis using 1 by auto
  qed
qed simp_all

lemma case3_insert:
  "implicit_mul_case3 s =
   insert_between (\<lambda>c d. c = CHR ''!'' \<and> (is_letter d \<or> is_digit d \<or> d = CHR ''('')) s"
proof (induction s rule: implicit_mul_case3.induct)
  case (1 c d cs)
  show ?case
  proof (cases "c = CHR ''!'' \<and> (is_letter d \<or> is_digit d \<or> d = CHR ''('')")
    case True
    then have "d \<noteq> CHR ''!''" by (auto simp: is_digit_def is_letter_def)
    then have "insert_between (\<lambda>c d. c = CHR ''!'' \<and> (is_letter d \<or> is_digit d \<or> d = CHR ''('')) (d # cs) =
        d # insert_between (\<lambda>c d. c = CHR ''!'' \<and> (is_letter d \<or> is_digit d \<or> d = CHR ''('')) cs"
      by (intro insert_between_head) simp
    then show ?thesis using True 1 by simp
  next
    case False
    then show ?thesis using 1 by auto
  qed
qed simp_all

text \<open>
  Two passes are one pass for both conditions, when the second condition holds of no pair
  with the inserted operator in it.
\<close>

lemma insert_between_twice:
  assumes "\<And>c. \<not> Q c CHR ''*''" and "\<And>d. \<not> Q CHR ''*'' d"
  shows "insert_between Q (insert_between P s) = insert_between (\<lambda>c d. P c d \<or> Q c d) s"
proof (induction P s rule: insert_between.induct)
  case (1 P c d cs)
  obtain xs where xs: "insert_between P (d # cs) = d # xs"
    using insert_between_Cons by blast
  show ?case
  proof (cases "P c d")
    case True
    have "insert_between Q (c # CHR ''*'' # d # xs) = c # CHR ''*'' # insert_between Q (d # xs)"
      using assms by simp
    then show ?thesis using True 1 xs by simp
  next
    case False
    then show ?thesis using 1 xs by simp
  qed
qed simp_all

lemma implicit_multiplication_refines:
  "implicit_multiplication s = implicit_multiplication_spec s"
proof -
  have a: "\<And>c. \<not> (c = CHR '')'' \<and> (is_letter CHR ''*'' \<or> is_digit CHR ''*'' \<or> CHR ''*'' = CHR ''(''))"
    by (simp add: is_digit_def is_letter_def)
  have b: "\<And>c. \<not> (c = CHR ''!'' \<and> (is_letter CHR ''*'' \<or> is_digit CHR ''*'' \<or> CHR ''*'' = CHR ''(''))"
    by (simp add: is_digit_def is_letter_def)
  have "implicit_multiplication s =
      insert_between (\<lambda>c d. c = CHR ''!'' \<and> (is_letter d \<or> is_digit d \<or> d = CHR ''(''))
        (insert_between (\<lambda>c d. c = CHR '')'' \<and> (is_letter d \<or> is_digit d \<or> d = CHR ''(''))
          (insert_between (\<lambda>c d. is_digit c \<and> (is_letter d \<or> d = CHR ''('')) s))"
    by (simp add: implicit_multiplication_def case1_insert case2_insert case3_insert)
  also have "\<dots> = insert_between (\<lambda>c d.
        ((is_digit c \<and> (is_letter d \<or> d = CHR ''('')) \<or>
         (c = CHR '')'' \<and> (is_letter d \<or> is_digit d \<or> d = CHR ''(''))) \<or>
        (c = CHR ''!'' \<and> (is_letter d \<or> is_digit d \<or> d = CHR ''(''))) s"
    using a b by (simp add: insert_between_twice)
  also have "\<dots> = implicit_multiplication_spec s"
    unfolding implicit_multiplication_spec_def needs_multiply_def
    by (intro arg_cong2 [where f = insert_between]) auto
  finally show ?thesis .
qed

subsection \<open>The loop of factorial on a bound of 2 ^ 53 or more\<close>

lemma stuck_step:
  assumes "stuck n i"
  shows "num_le i n" and "stuck n (num_add i (num 1))"
proof -
  from assms obtain k :: nat where i: "i = Fin False (real k)" and k: "k \<le> 2 ^ 53"
    by (auto simp: stuck_def)
  have r: "real k \<le> 2 ^ 53" using k by (metis of_nat_le_iff of_nat_numeral of_nat_power)
  from assms have n: "n = Inf False \<or> (\<exists>N. n = Fin False N \<and> 2 ^ 53 \<le> N)"
    by (simp add: stuck_def)
  then show "num_le i n" using i r by (auto simp: val_def)
  have "\<exists>j::nat. num_add i (num 1) = Fin False (real j) \<and> j \<le> 2 ^ 53"
  proof (cases "k = 2 ^ 53")
    case True
    have "fl False (2 ^ 53 + 1) = Fin False (2 ^ 53)" by (simp add: fl_eval)
    then have "num_add i (num 1) = Fin False (real ((2::nat) ^ 53))"
      using i True by (simp add: num_def val_def)
    then show ?thesis by blast
  next
    case False
    then have "k + 1 \<le> 2 ^ 53" using k by simp
    then have "fl False (real (k + 1)) = Fin False (real (k + 1))" by (rule fl_nat)
    then have "num_add i (num 1) = Fin False (real (k + 1))"
      using i by (simp add: num_def val_def add.commute)
    then show ?thesis using \<open>k + 1 \<le> 2 ^ 53\<close> by blast
  qed
  then show "stuck n (num_add i (num 1))" using n by (simp add: stuck_def)
qed

lemma factorial_loop_stuck: "factorial_loop n i result = Some y \<Longrightarrow> \<not> stuck n i"
proof -
  assume a: "factorial_loop n i result = Some y"
  show ?thesis
  proof (rule factorial_loop.raw_induct [where P = "\<lambda>n i result y. \<not> stuck n i", OF _ a])
    fix f n i result y
    assume IH: "\<And>n i result y. f n i result = Some y \<Longrightarrow> \<not> stuck n i"
      and st: "(if num_le i n then f n (num_add i (num 1)) (num_mul result i) else Some result) = Some y"
    show "\<not> stuck n i"
    proof
      assume s: "stuck n i"
      from stuck_step [OF s] st have "f n (num_add i (num 1)) (num_mul result i) = Some y"
        by simp
      from IH [OF this] stuck_step(2) [OF s] show False by simp
    qed
  qed
qed

lemma factorial_diverges: "2 ^ 53 \<le> N \<Longrightarrow> factorial (Fin False N) = None"
proof -
  assume N: "2 ^ 53 \<le> N"
  have "(2::nat) \<le> 2 ^ 53" by simp
  then have "stuck (Fin False N) (Fin False (real 2))" using N unfolding stuck_def by blast
  then have "stuck (Fin False N) (num 2)" by (simp add: num_def)
  then have "factorial_loop (Fin False N) (num 2) (num 1) = None"
    using factorial_loop_stuck [of "Fin False N" "num 2" "num 1"] by (cases "factorial_loop (Fin False N) (num 2) (num 1)") auto
  moreover have "(1::real) < 2 ^ 53" by simp
  ultimately show ?thesis using N by (simp add: factorial_def num_def val_def)
qed

subsection \<open>Evaluations\<close>

lemma eval_2_3_4: "evaluateExpression M ''2(3+4)'' angleMode = Some (Returns (Number (num 14)))"
  by (simp add: run_eval norm_eval lex_eval parse_eval num_eval)

lemma eval_malformed: "evaluateExpression M ''2+*3'' angleMode = Some (Returns (Text ''Format Error''))"
  by (simp add: run_eval norm_eval lex_eval parse_eval num_eval)

lemma eval_remainder: "evaluateExpression M ''2%3'' angleMode = Some (Returns (Number (num 2)))"
  by (simp add: run_eval norm_eval lex_eval parse_eval num_eval)

lemma eval_comma: "evaluateExpression M ''1,2'' angleMode = Some (Returns (Number (num 2)))"
  by (simp add: run_eval norm_eval lex_eval parse_eval num_eval)

lemma eval_zero_by_zero:
  "evaluateExpression M ''0/0'' angleMode = Some (Returns (Text ''Can't divide by 0''))"
  by (simp add: run_eval norm_eval lex_eval parse_eval num_eval)

lemma eval_sqrt_negative:
  "evaluateExpression M ''sqrt(-1)'' angleMode = Some (Returns (Text ''Can't divide by 0''))"
  by (simp add: run_eval norm_eval lex_eval parse_eval num_eval)

lemma eval_csc_zero:
  "evaluateExpression M ''csc(0)'' angleMode = Some (Returns (Text ''Can't divide by 0''))"
  by (cases angleMode) (simp_all add: run_eval norm_eval lex_eval parse_eval num_eval angle_def degToRad_def Math_PI_def)

lemma eval_huge_factorial: "evaluateExpression M ''9007199254740992!'' angleMode = None"
proof -
  have "implicit_multiplication (symbol_replacement (strip_whitespace ''9007199254740992!'')) =
      ''9007199254740992!''"
    by (simp add: norm_eval)
  moreover have "factorial_match ''9007199254740992!'' = Some (''9007199254740992'', [], [])"
    by (simp add: norm_eval)
  moreover have "decimal_number ''9007199254740992'' [] 0 = Fin False 9007199254740992"
    by (simp add: lex_eval num_eval)
  moreover have "factorial (Fin False 9007199254740992) = None"
    by (rule factorial_diverges) simp
  ultimately show ?thesis
    by (simp add: evaluateExpression_def replace_factorials.simps [of "''9007199254740992!''"])
qed

lemma sec_call_rewritten:
  "replace_e prev (''sec('' @ r) = ''sEc('' @ replace_e (Some CHR ''('') r"
  by simp

lemma sec_zero_rewritten:
  "implicit_multiplication (symbol_replacement (strip_whitespace ''sec(0)'')) = ''sEc(0)''"
  by (simp add: norm_eval)

lemma eval_sec_zero:
  "\<not> global_name M ''sEc'' \<Longrightarrow>
   evaluateExpression M ''sec(0)'' angleMode = Some (Returns (Text ''Format Error''))"
  by (simp add: run_eval norm_eval lex_eval parse_eval num_eval unbound_def reserved_words_def)

lemma eval_sec_sixty:
  "\<not> global_name M ''sEc'' \<Longrightarrow>
   evaluateExpression M ''sec(60)'' angleMode = Some (Returns (Text ''Format Error''))"
  by (simp add: run_eval norm_eval lex_eval parse_eval num_eval unbound_def reserved_words_def)

lemma eval_cot_zero:
  "evaluateExpression M ''cot(0)'' angleMode = Some (Returns (Text ''Can't divide by 0''))"
  by (cases angleMode) (simp_all add: run_eval norm_eval lex_eval parse_eval num_eval angle_def degToRad_def Math_PI_def)

lemma eval_csc_thirty:
  "evaluateExpression M ''csc(30)'' Rad =
     Some (Returns (validate (JNumber (num_div (num 1) (approx_sin M (num 30))))))"
  by (simp add: run_eval norm_eval lex_eval parse_eval num_eval angle_def)

lemma eval_cot_thirty:
  "evaluateExpression M ''cot(30)'' Rad =
     Some (Returns (validate (JNumber (num_div (num 1) (approx_tan M (num 30))))))"
  by (simp add: run_eval norm_eval lex_eval parse_eval num_eval angle_def)

subsection \<open>The claims about evaluateExpression and formatResult\<close>

text \<open>
  Claim C10. The three replacements of step 3 insert a multiply operator between two
  adjacent characters in exactly the three cases of the specification (a digit before a
  letter or an open parenthesis; a close parenthesis, or a factorial mark, before a digit,
  a letter or an open parenthesis): the three passes of the source are the one pass of
  \<open>implicit_multiplication_spec\<close>. And \<open>evaluateExpression("2(3+4)", deg)\<close> is the number 14.
\<close>

theorem implicit_multiplication_three_cases:
  "implicit_multiplication s = implicit_multiplication_spec s \<and>
   evaluateExpression M ''2(3+4)'' Deg = Some (Returns (Number (num 14)))"
  by (simp add: implicit_multiplication_refines eval_2_3_4)

text \<open>
  Claim C9 (the code differs for \<open>sec\<close>). The function body defines \<open>csc\<close>, \<open>sec\<close> and \<open>cot\<close> as
  one divided by \<^verbatim>\<open>Math.sin\<close>, \<^verbatim>\<open>Math.cos\<close> and \<^verbatim>\<open>Math.tan\<close>, and for \<open>csc\<close> and \<open>cot\<close> that
  is what \<open>evaluateExpression\<close> returns: \<open>csc(30)\<close> and \<open>cot(30)\<close> in radian mode are
  \<open>1 / Math.sin(30)\<close> and \<open>1 / Math.tan(30)\<close>, and \<open>csc(0)\<close> and \<open>cot(0)\<close> are the
  divide-by-zero message in both angle modes. But step 2 replaces the \<open>e\<close> of every \<open>sec(\<close> by
  \<open>E\<close>, whatever comes before and after: the expression handed to the host calls \<open>sEc\<close>, a
  name that nothing binds unless the host's global environment does, and
  \<open>evaluateExpression("sec(0)", mode)\<close> is \<open>'Format Error'\<close>, where the function \<open>sec\<close> of the
  scope would return \<open>1\<close>.
\<close>

theorem sec_is_never_called:
  "replace_e prev (''sec('' @ r) = ''sEc('' @ replace_e (Some CHR ''('') r \<and>
   implicit_multiplication (symbol_replacement (strip_whitespace ''sec(0)'')) = ''sEc(0)'' \<and>
   (\<not> global_name M ''sEc'' \<longrightarrow>
      evaluateExpression M ''sec(0)'' angleMode = Some (Returns (Text ''Format Error''))) \<and>
   apply_function M angleMode Fn_sec (num 0) = num 1 \<and>
   evaluateExpression M ''csc(0)'' angleMode = Some (Returns (Text ''Can't divide by 0'')) \<and>
   evaluateExpression M ''cot(0)'' angleMode = Some (Returns (Text ''Can't divide by 0'')) \<and>
   evaluateExpression M ''csc(30)'' Rad =
     Some (Returns (validate (JNumber (num_div (num 1) (approx_sin M (num 30)))))) \<and>
   evaluateExpression M ''cot(30)'' Rad =
     Some (Returns (validate (JNumber (num_div (num 1) (approx_tan M (num 30))))))"
proof -
  have "apply_function M angleMode Fn_sec (num 0) = num 1"
    by (cases angleMode) (simp_all add: angle_def degToRad_def Math_PI_def num_eval)
  then show ?thesis
    by (simp add: sec_zero_rewritten eval_sec_zero eval_csc_zero eval_cot_zero eval_csc_thirty
        eval_cot_thirty)
qed

theorem sec_is_never_called_witness:
  "\<not> global_name sample_host ''sEc'' \<and>
   evaluateExpression sample_host ''sec(0)'' Deg = Some (Returns (Text ''Format Error'')) \<and>
   evaluateExpression sample_host ''sec(0)'' Rad = Some (Returns (Text ''Format Error''))"
proof -
  have a: "\<not> global_name sample_host ''sEc''" by (simp add: sample_host_def)
  from sec_is_never_called [of _ _ sample_host Deg] sec_is_never_called [of _ _ sample_host Rad] a
  show ?thesis by blast
qed

text \<open>
  Claim C3 (the code differs). The malformed \<open>2+*3\<close> is a syntax error that the \<^verbatim>\<open>try\<close> block
  turns into the text \<open>Format Error\<close>. But \<open>evaluateExpression\<close> does not return on every
  text: for \<open>9007199254740992!\<close> step 4 calls \<open>factorial(9007199254740992)\<close>, whose loop counter
  stops growing at \<open>2 ^ 53 = 9007199254740992\<close> (\<open>2 ^ 53 + 1\<close> rounds to \<open>2 ^ 53\<close>) and never
  exceeds the bound.
\<close>

theorem evaluateExpression_malformed:
  "evaluateExpression M ''2+*3'' angleMode = Some (Returns (Text ''Format Error'')) \<and>
   factorial (num 9007199254740992) = None \<and>
   evaluateExpression M ''9007199254740992!'' angleMode = None"
proof -
  have "factorial (Fin False 9007199254740992) = None" by (rule factorial_diverges) simp
  then show ?thesis by (simp add: eval_malformed eval_huge_factorial num_def)
qed

text \<open>
  Claim C1 (the code differs). The sanitized text is handed to \<^verbatim>\<open>new Function\<close> whatever it
  holds. The remainder operator \<^verbatim>\<open>%\<close> and the comma operator are no tokens of the supported
  grammar, and both are evaluated: \<open>2%3\<close> and \<open>1,2\<close> give the number 2, not \<open>Format Error\<close>.
\<close>

theorem evaluateExpression_unsupported_tokens:
  "evaluateExpression M ''2%3'' angleMode = Some (Returns (Number (num 2))) \<and>
   evaluateExpression M ''1,2'' angleMode = Some (Returns (Number (num 2)))"
  by (simp add: eval_remainder eval_comma)

text \<open>
  Claim C2 (the code differs). Both \<open>formatResult\<close> and \<open>evaluateExpression\<close> test
  \<^verbatim>\<open>!isFinite(result)\<close> before \<^verbatim>\<open>isNaN(result)\<close>, and \<open>NaN\<close> is not finite: a \<open>NaN\<close> result gets the
  divide-by-zero message, never the invalid-input message. So do \<open>0/0\<close> and \<open>sqrt(-1)\<close>.
\<close>

theorem NaN_is_reported_as_division_by_zero:
  "formatResult (Number NaN) = Some ''Can't divide by 0'' \<and>
   validate (JNumber NaN) = Text ''Can't divide by 0'' \<and>
   evaluateExpression M ''0/0'' angleMode = Some (Returns (Text ''Can't divide by 0'')) \<and>
   evaluateExpression M ''sqrt(-1)'' angleMode = Some (Returns (Text ''Can't divide by 0''))"
  by (simp add: eval_zero_by_zero eval_sqrt_negative)

section \<open>The sine of ninety\<close>

lemma cos_series_bound:
  fixes x :: real
  assumes "0 < x" "0 < n"
  shows "\<bar>cos x - (\<Sum>m<n. cos_coeff m * x ^ m)\<bar> \<le> x ^ n / fact n"
proof -
  obtain t where c: "cos x = (\<Sum>m<n. cos_coeff m * x ^ m) + (cos (t + 1/2 * real n * pi) / fact n) * x ^ n"
    using Maclaurin_cos_expansion2 [OF assms] by blast
  have "\<bar>(cos (t + 1/2 * real n * pi) / fact n) * x ^ n\<bar> = \<bar>cos (t + 1/2 * real n * pi)\<bar> * (x ^ n / fact n)"
    using assms by (simp add: abs_mult)
  also have "\<dots> \<le> 1 * (x ^ n / fact n)"
    using assms by (intro mult_right_mono) auto
  finally show ?thesis using c by simp
qed

lemma series_16:
  "(\<Sum>m<(16::nat). f m) = f 0 + f 1 + f 2 + f 3 + f 4 + f 5 + f 6 + f 7 + f 8 + f 9 + f 10 + f 11 +
     f 12 + f 13 + f 14 + (f 15 :: real)"
  by (simp add: eval_nat_numeral lessThan_Suc)

lemma cos_below_quarter_turn: "0 < cos (15707963 / 10 ^ 7 :: real) \<and> cos (15707963 / 10 ^ 7 :: real) \<le> 1 / 10 ^ 7"
proof -
  let ?x = "15707963 / 10 ^ 7 :: real"
  have "\<bar>cos ?x - (\<Sum>m<16. cos_coeff m * ?x ^ m)\<bar> \<le> ?x ^ 16 / fact 16"
    by (rule cos_series_bound) auto
  moreover have "?x ^ 16 / fact 16 < (\<Sum>m<16. cos_coeff m * ?x ^ m)"
    unfolding series_16 by (simp add: cos_coeff_def fact_numeral power_divide)
  moreover have "(\<Sum>m<16. cos_coeff m * ?x ^ m) + ?x ^ 16 / fact 16 \<le> 1 / 10 ^ 7"
    unfolding series_16 by (simp add: cos_coeff_def fact_numeral power_divide)
  ultimately show ?thesis by linarith
qed

lemma cos_above_quarter_turn: "- (1 / 10 ^ 7) \<le> cos (15707964 / 10 ^ 7 :: real) \<and> cos (15707964 / 10 ^ 7 :: real) < 0"
proof -
  let ?x = "15707964 / 10 ^ 7 :: real"
  have "\<bar>cos ?x - (\<Sum>m<16. cos_coeff m * ?x ^ m)\<bar> \<le> ?x ^ 16 / fact 16"
    by (rule cos_series_bound) auto
  moreover have "(\<Sum>m<16. cos_coeff m * ?x ^ m) + ?x ^ 16 / fact 16 < 0"
    unfolding series_16 by (simp add: cos_coeff_def fact_numeral power_divide)
  moreover have "- (1 / 10 ^ 7) \<le> (\<Sum>m<16. cos_coeff m * ?x ^ m) - ?x ^ 16 / fact 16"
    unfolding series_16 by (simp add: cos_coeff_def fact_numeral power_divide)
  ultimately show ?thesis by linarith
qed

lemma pi_half_bounds: "15707963 / 10 ^ 7 < pi / 2 \<and> pi / 2 < 15707964 / 10 ^ 7"
proof -
  have "\<not> pi / 2 \<le> 15707963 / 10 ^ 7"
  proof
    assume "pi / 2 \<le> 15707963 / 10 ^ 7"
    moreover have "(15707963 / 10 ^ 7 :: real) \<le> pi" using pi_ge_two by simp
    ultimately have "cos (15707963 / 10 ^ 7 :: real) \<le> cos (pi / 2)"
      by (intro cos_monotone_0_pi_le) auto
    then show False using cos_below_quarter_turn by simp
  qed
  moreover have "\<not> 15707964 / 10 ^ 7 \<le> pi / 2"
  proof
    assume "15707964 / 10 ^ 7 \<le> pi / 2"
    then have "cos (pi / 2) \<le> cos (15707964 / 10 ^ 7 :: real)"
      by (intro cos_monotone_0_pi_le) auto
    then show False using cos_above_quarter_turn by simp
  qed
  ultimately show ?thesis by simp
qed

lemma sin_near_quarter_turn:
  fixes x :: real
  assumes "15707963 / 10 ^ 7 \<le> x" "x \<le> 15707964 / 10 ^ 7"
  shows "1 - 1 / 10 ^ 14 \<le> sin x \<and> sin x \<le> 1"
proof -
  have pi: "x \<le> pi" "15707964 / 10 ^ 7 \<le> pi" using assms pi_ge_two by simp_all
  have "cos x \<le> cos (15707963 / 10 ^ 7 :: real)"
    using assms pi by (intro cos_monotone_0_pi_le) auto
  moreover have "cos (15707964 / 10 ^ 7 :: real) \<le> cos x"
    using assms pi by (intro cos_monotone_0_pi_le) auto
  ultimately have "\<bar>cos x\<bar> \<le> 1 / 10 ^ 7"
    using cos_below_quarter_turn cos_above_quarter_turn by linarith
  then have "\<bar>cos x\<bar> ^ 2 \<le> (1 / 10 ^ 7) ^ 2"
    by (intro power_mono) auto
  then have c: "(cos x)\<^sup>2 \<le> 1 / 10 ^ 14" by (simp add: power_divide)
  have "(sin x)\<^sup>2 = 1 - (cos x)\<^sup>2" by (simp add: sin_squared_eq)
  then have s2: "1 - 1 / 10 ^ 14 \<le> (sin x)\<^sup>2" using c by linarith
  have s0: "0 \<le> sin x" using assms pi by (intro sin_ge_zero) auto
  have "(sin x)\<^sup>2 = sin x * sin x" by (simp add: power2_eq_square)
  also have "\<dots> \<le> 1 * sin x" using s0 by (intro mult_right_mono) auto
  finally show ?thesis using s2 by simp
qed

lemma sin_90_reduced: "sin (90 :: real) = sin (29 * pi - 90)"
  by (simp add: sin_diff)

lemma sin_90_bounds: "893995 / 10 ^ 6 \<le> sin (90 :: real) \<and> sin (90 :: real) \<le> 893999 / 10 ^ 6"
proof -
  let ?lo = "11061854 / 10 ^ 7 :: real"
  let ?hi = "11061912 / 10 ^ 7 :: real"
  let ?y = "29 * pi - 90 :: real"
  have y: "?lo \<le> ?y" "?y \<le> ?hi" using pi_half_bounds by simp_all
  have h: "?hi \<le> pi / 2" "- (pi / 2) \<le> ?lo" using pi_half_bounds by simp_all
  have "sin ?lo \<le> sin ?y" using y h by (intro sin_monotone_2pi_le) auto
  moreover have "sin ?y \<le> sin ?hi" using y h by (intro sin_monotone_2pi_le) auto
  moreover have "\<bar>sin ?lo - (\<Sum>m<16. sin_coeff m * ?lo ^ m)\<bar> \<le> inverse (fact 16) * \<bar>?lo\<bar> ^ 16"
    by (rule Maclaurin_sin_bound)
  moreover have "893995 / 10 ^ 6 \<le> (\<Sum>m<16. sin_coeff m * ?lo ^ m) - inverse (fact 16) * \<bar>?lo\<bar> ^ 16"
    unfolding series_16 by (simp add: sin_coeff_def fact_numeral power_divide)
  moreover have "\<bar>sin ?hi - (\<Sum>m<16. sin_coeff m * ?hi ^ m)\<bar> \<le> inverse (fact 16) * \<bar>?hi\<bar> ^ 16"
    by (rule Maclaurin_sin_bound)
  moreover have "(\<Sum>m<16. sin_coeff m * ?hi ^ m) + inverse (fact 16) * \<bar>?hi\<bar> ^ 16 \<le> 893999 / 10 ^ 6"
    unfolding series_16 by (simp add: sin_coeff_def fact_numeral power_divide)
  ultimately show ?thesis unfolding sin_90_reduced by linarith
qed

lemma quarter_turn: "num_mul (num 90) degToRad = Fin False (884279719003555 / 2 ^ 49)"
  by (simp add: degToRad_def Math_PI_def num_eval)

text \<open>
  The number \<open>degToRad\<close> is written into the function body as text; the text reads back as
  the same number.
\<close>

lemma degToRad_read_back: "read_number (number_to_string degToRad) = Some degToRad"
proof -
  have d: "degToRad = fl False (884279719003555 / 2 ^ 48 / 180)"
    by (simp add: degToRad_def Math_PI_def num_def)
  have "binary64 degToRad" unfolding d by (rule binary64_fl) simp
  moreover have "degToRad \<noteq> Fin True 0" unfolding d by (simp add: fl_def)
  ultimately show ?thesis using read_number_to_string [of degToRad] by (simp only: if_False)
qed

lemma eval_sin_90_deg:
  "evaluateExpression M ''sin(90)'' Deg =
     Some (Returns (validate (JNumber (approx_sin M (Fin False (884279719003555 / 2 ^ 49))))))"
  by (simp add: run_eval norm_eval lex_eval parse_eval num_eval angle_def degToRad_def Math_PI_def)

lemma eval_sin_90_rad:
  "evaluateExpression M ''sin(90)'' Rad = Some (Returns (validate (JNumber (approx_sin M (num 90)))))"
  by (simp add: run_eval norm_eval lex_eval parse_eval num_eval angle_def)

lemma eval_cos_60:
  "evaluateExpression M ''cos(60)'' Deg =
     Some (Returns (validate (JNumber (approx_cos M (num_mul (num 60) degToRad))))) \<and>
   evaluateExpression M ''cos(60)'' Rad = Some (Returns (validate (JNumber (approx_cos M (num 60)))))"
  by (simp add: run_eval norm_eval lex_eval parse_eval num_eval angle_def degToRad_def Math_PI_def)

lemma eval_tan_45:
  "evaluateExpression M ''tan(45)'' Deg =
     Some (Returns (validate (JNumber (approx_tan M (num_mul (num 45) degToRad))))) \<and>
   evaluateExpression M ''tan(45)'' Rad = Some (Returns (validate (JNumber (approx_tan M (num 45)))))"
  by (simp add: run_eval norm_eval lex_eval parse_eval num_eval angle_def degToRad_def Math_PI_def)

lemma eval_csc_45:
  "evaluateExpression M ''csc(45)'' Deg =
     Some (Returns (validate (JNumber (num_div (num 1) (approx_sin M (num_mul (num 45) degToRad))))))"
  by (simp add: run_eval norm_eval lex_eval parse_eval num_eval angle_def degToRad_def Math_PI_def)

lemma eval_cot_60:
  "evaluateExpression M ''cot(60)'' Deg =
     Some (Returns (validate (JNumber (num_div (num 1) (approx_tan M (num_mul (num 60) degToRad))))))"
  by (simp add: run_eval norm_eval lex_eval parse_eval num_eval angle_def degToRad_def Math_PI_def)

lemma validate_close_to: "close_to \<delta> y r \<Longrightarrow> validate (JNumber y) = Number y"
  by (cases y) (simp_all add: close_to_def)

lemma close_to_trans: "close_to \<delta> y r \<Longrightarrow> \<bar>r - r'\<bar> \<le> \<epsilon> \<Longrightarrow> close_to (\<delta> + \<epsilon>) y r'"
  by (cases y) (auto simp: close_to_def)

lemma sin_quarter_turn: "\<bar>sin (884279719003555 / 2 ^ 49 :: real) - 1\<bar> \<le> 1 / 10 ^ 14"
  using sin_near_quarter_turn [of "884279719003555 / 2 ^ 49"] by simp

lemma sin_90_near: "\<bar>sin (90 :: real) - 894 / 1000\<bar> \<le> 1 / 10 ^ 5"
  using sin_90_bounds by simp

lemma sin_90_numeric:
  "(sine_within M \<delta> (num_mul (num 90) degToRad) \<longrightarrow>
      (\<exists>y. evaluateExpression M ''sin(90)'' Deg = Some (Returns (Number y)) \<and>
           close_to (\<delta> + 1 / 10 ^ 14) y 1)) \<and>
   (sine_within M \<delta> (num 90) \<longrightarrow>
      (\<exists>y. evaluateExpression M ''sin(90)'' Rad = Some (Returns (Number y)) \<and>
           close_to (\<delta> + 1 / 10 ^ 5) y (894 / 1000)))"
proof -
  have "\<exists>y. evaluateExpression M ''sin(90)'' Deg = Some (Returns (Number y)) \<and>
      close_to (\<delta> + 1 / 10 ^ 14) y 1"
    if a: "sine_within M \<delta> (num_mul (num 90) degToRad)"
  proof -
    from a have w: "close_to \<delta> (approx_sin M (Fin False (884279719003555 / 2 ^ 49)))
        (sin (884279719003555 / 2 ^ 49))"
      by (simp add: sine_within_def quarter_turn val_def)
    from close_to_trans [OF w sin_quarter_turn] validate_close_to [OF w] eval_sin_90_deg [of M]
    show ?thesis by simp
  qed
  moreover have "\<exists>y. evaluateExpression M ''sin(90)'' Rad = Some (Returns (Number y)) \<and>
      close_to (\<delta> + 1 / 10 ^ 5) y (894 / 1000)"
    if a: "sine_within M \<delta> (num 90)"
  proof -
    from a have w: "close_to \<delta> (approx_sin M (num 90)) (sin 90)"
      by (simp add: sine_within_def num_def val_def)
    from close_to_trans [OF w sin_90_near] validate_close_to [OF w] eval_sin_90_rad [of M]
    show ?thesis by simp
  qed
  ultimately show ?thesis by blast
qed

lemma sample_host_sine:
  "sine_within sample_host (1 / 10 ^ 5) (num_mul (num 90) degToRad) \<and>
   sine_within sample_host (1 / 10 ^ 5) (num 90)"
proof -
  have "\<bar>1 - sin (884279719003555 / 2 ^ 49 :: real)\<bar> \<le> 1 / 10 ^ 5"
    using sin_quarter_turn by simp
  then have a: "sine_within sample_host (1 / 10 ^ 5) (num_mul (num 90) degToRad)"
    unfolding quarter_turn by (simp add: sine_within_def close_to_def sample_host_def num_def val_def)
  have "\<bar>4026203041061939 / 2 ^ 52 - sin (90 :: real)\<bar> \<le> 1 / 10 ^ 5"
    unfolding abs_le_iff using sin_90_bounds by simp
  then have b: "sine_within sample_host (1 / 10 ^ 5) (num 90)"
    by (simp add: sine_within_def close_to_def sample_host_def num_def val_def)
  from a b show ?thesis by simp
qed

text \<open>
  Claim C8 (the code differs for \<open>sec\<close>). In degree mode each of the six functions of the
  scope hands the host function its argument times \<open>degToRad\<close> (the number
  \<^verbatim>\<open>Math.PI / 180\<close>), and in radian mode the argument itself. For \<open>sin\<close>, \<open>cos\<close>, \<open>tan\<close>, \<open>csc\<close>
  and \<open>cot\<close> that is what \<open>evaluateExpression\<close> returns, and on every host whose sine is
  within \<open>\<delta>\<close> of the real sine at the argument, \<open>evaluateExpression("sin(90)", mode)\<close> is a
  number within \<open>\<delta> + 10\<^sup>-\<^sup>1\<^sup>4\<close> of \<open>1\<close> in degree mode and within \<open>\<delta> + 10\<^sup>-\<^sup>5\<close> of \<open>0.894\<close> in
  radian mode. The function \<open>sec\<close> is never called: \<open>evaluateExpression("sec(60)", 'deg')\<close> is
  \<open>'Format Error'\<close>, since the name handed to the host is \<open>sEc\<close>.
\<close>

theorem trig_functions_angle_mode:
  "apply_function M Deg Fn_sin x = Math_sin M (num_mul x degToRad) \<and>
   apply_function M Deg Fn_cos x = Math_cos M (num_mul x degToRad) \<and>
   apply_function M Deg Fn_tan x = Math_tan M (num_mul x degToRad) \<and>
   apply_function M Deg Fn_csc x = num_div (num 1) (Math_sin M (num_mul x degToRad)) \<and>
   apply_function M Deg Fn_sec x = num_div (num 1) (Math_cos M (num_mul x degToRad)) \<and>
   apply_function M Deg Fn_cot x = num_div (num 1) (Math_tan M (num_mul x degToRad)) \<and>
   apply_function M Rad Fn_sin x = Math_sin M x \<and>
   apply_function M Rad Fn_cos x = Math_cos M x \<and>
   apply_function M Rad Fn_tan x = Math_tan M x \<and>
   apply_function M Rad Fn_csc x = num_div (num 1) (Math_sin M x) \<and>
   apply_function M Rad Fn_sec x = num_div (num 1) (Math_cos M x) \<and>
   apply_function M Rad Fn_cot x = num_div (num 1) (Math_tan M x) \<and>
   evaluateExpression M ''sin(90)'' Deg =
     Some (Returns (validate (JNumber (approx_sin M (num_mul (num 90) degToRad))))) \<and>
   evaluateExpression M ''sin(90)'' Rad = Some (Returns (validate (JNumber (approx_sin M (num 90))))) \<and>
   evaluateExpression M ''cos(60)'' Deg =
     Some (Returns (validate (JNumber (approx_cos M (num_mul (num 60) degToRad))))) \<and>
   evaluateExpression M ''cos(60)'' Rad = Some (Returns (validate (JNumber (approx_cos M (num 60))))) \<and>
   evaluateExpression M ''tan(45)'' Deg =
     Some (Returns (validate (JNumber (approx_tan M (num_mul (num 45) degToRad))))) \<and>
   evaluateExpression M ''tan(45)'' Rad = Some (Returns (validate (JNumber (approx_tan M (num 45))))) \<and>
   evaluateExpression M ''csc(45)'' Deg =
     Some (Returns (validate (JNumber (num_div (num 1) (approx_sin M (num_mul (num 45) degToRad)))))) \<and>
   evaluateExpression M ''cot(60)'' Deg =
     Some (Returns (validate (JNumber (num_div (num 1) (approx_tan M (num_mul (num 60) degToRad)))))) \<and>
   (\<not> global_name M ''sEc'' \<longrightarrow>
      evaluateExpression M ''sec(60)'' Deg = Some (Returns (Text ''Format Error''))) \<and>
   (sine_within M \<delta> (num_mul (num 90) degToRad) \<longrightarrow>
      (\<exists>y. evaluateExpression M ''sin(90)'' Deg = Some (Returns (Number y)) \<and>
           close_to (\<delta> + 1 / 10 ^ 14) y 1)) \<and>
   (sine_within M \<delta> (num 90) \<longrightarrow>
      (\<exists>y. evaluateExpression M ''sin(90)'' Rad = Some (Returns (Number y)) \<and>
           close_to (\<delta> + 1 / 10 ^ 5) y (894 / 1000)))"
proof -
  have modes: "angle Deg x = num_mul x degToRad" "angle Rad x = x"
    by (simp_all add: angle_def)
  have deg: "evaluateExpression M ''sin(90)'' Deg =
      Some (Returns (validate (JNumber (approx_sin M (num_mul (num 90) degToRad)))))"
    by (simp add: eval_sin_90_deg quarter_turn)
  show ?thesis
    using sin_90_numeric [of M \<delta>]
    by (simp add: modes deg eval_sin_90_rad eval_cos_60 eval_tan_45 eval_csc_45 eval_cot_60
        eval_sec_sixty)
qed

theorem trig_functions_angle_mode_witness:
  "\<not> global_name sample_host ''sEc'' \<and>
   sine_within sample_host (1 / 10 ^ 5) (num_mul (num 90) degToRad) \<and>
   sine_within sample_host (1 / 10 ^ 5) (num 90) \<and>
   evaluateExpression sample_host ''sec(60)'' Deg = Some (Returns (Text ''Format Error'')) \<and>
   (\<exists>y. evaluateExpression sample_host ''sin(90)'' Deg = Some (Returns (Number y)) \<and>
        close_to (1 / 10 ^ 5 + 1 / 10 ^ 14) y 1) \<and>
   (\<exists>y. evaluateExpression sample_host ''sin(90)'' Rad = Some (Returns (Number y)) \<and>
        close_to (1 / 10 ^ 5 + 1 / 10 ^ 5) y (894 / 1000))"
proof -
  have a: "\<not> global_name sample_host ''sEc''" by (simp add: sample_host_def)
  from trig_functions_angle_mode [of sample_host _ "1 / 10 ^ 5"] a sample_host_sine
  show ?thesis by blast
qed

end
